theory Spec2Isabelle
  imports Complex_Main
begin

section \<open>The Prisma schema as data\<close>

text \<open>
  The repository consists of \<^verbatim>\<open>prisma/schema.prisma\<close> and the ambient declaration
  \<^verbatim>\<open>app/types/html2pdf.d.ts\<close>. Both are declarations, so they are embedded as
  data: each model of the schema is a value of type \<open>model\<close>, field by field and
  attribute by attribute, in the order of the file. The behaviour the attributes stand
  for (defaults, \<^verbatim>\<open>@unique\<close>, \<^verbatim>\<open>@updatedAt\<close>, relations and their referential
  actions) is given afterwards by a store that interprets these declarations.
\<close>

datatype val =
    VNull
  | VStr string
  | VInt int
  | VFloat real
  | VTime nat
  | VEnum string
  | VJson string
  | VList "val list"

datatype scalar_type = TString | TInt | TFloat | TDateTime | TJson | TEnum string

datatype field_type = Scalar scalar_type | ModelRef string

text \<open>\<^verbatim>\<open>T\<close>, \<^verbatim>\<open>T?\<close> and \<^verbatim>\<open>T[]\<close>.\<close>

datatype modifier = Required | Optional | ListOf

datatype default_expr = DUuid | DCuid | DNow | DLit val

datatype ref_action = Cascade | Restrict | NoAction | SetNull | SetDefault

text \<open>
  \<open>AtRelation fs gs d u\<close> is \<^verbatim>\<open>@relation(fields: fs, references: gs, onDelete: d, onUpdate: u)\<close>;
  an action that the file does not write is \<open>None\<close>.
\<close>

datatype attribute =
    AtId
  | AtUnique
  | AtDefault default_expr
  | AtUpdatedAt
  | AtDbText
  | AtRelation "string list" "string list" "ref_action option" "ref_action option"

datatype field =
  FieldDecl (fname: string) (ftype: field_type) (fmod: modifier) (fattrs: "attribute list")

datatype model =
  Model (mname: string) (mfields: "field list") (mindexes: "string list list")

datatype enum_decl = Enum (ename: string) (evalues: "string list")

datatype schema_decl = Schema (models: "model list") (enums: "enum_decl list")

definition User_model :: model where
  "User_model = Model ''User''
     [ FieldDecl ''id'' (Scalar TString) Required [AtId, AtDefault DUuid],
       FieldDecl ''clerkUserId'' (Scalar TString) Required [AtUnique],
       FieldDecl ''email'' (Scalar TString) Required [AtUnique],
       FieldDecl ''name'' (Scalar TString) Optional [],
       FieldDecl ''imageUrl'' (Scalar TString) Optional [],
       FieldDecl ''industry'' (Scalar TString) Optional [],
       FieldDecl ''tokens'' (Scalar TInt) Required [AtDefault (DLit (VInt 10000))],
       FieldDecl ''industryInsight'' (ModelRef ''IndustryInsight'') Optional
         [AtRelation [''industry''] [''industry''] None None],
       FieldDecl ''createdAt'' (Scalar TDateTime) Required [AtDefault DNow],
       FieldDecl ''updatedAt'' (Scalar TDateTime) Required [AtUpdatedAt],
       FieldDecl ''bio'' (Scalar TString) Optional [],
       FieldDecl ''experience'' (Scalar TInt) Optional [],
       FieldDecl ''skills'' (Scalar TString) ListOf [],
       FieldDecl ''assessments'' (ModelRef ''Assessment'') ListOf [],
       FieldDecl ''resume'' (ModelRef ''Resume'') Optional [],
       FieldDecl ''coverLetter'' (ModelRef ''CoverLetter'') ListOf [],
       FieldDecl ''tokenTransactions'' (ModelRef ''TokenTransaction'') ListOf [],
       FieldDecl ''payments'' (ModelRef ''Payment'') ListOf [] ]
     []"

definition Assessment_model :: model where
  "Assessment_model = Model ''Assessment''
     [ FieldDecl ''id'' (Scalar TString) Required [AtId, AtDefault DCuid],
       FieldDecl ''userId'' (Scalar TString) Required [],
       FieldDecl ''user'' (ModelRef ''User'') Required [AtRelation [''userId''] [''id''] None None],
       FieldDecl ''quizScore'' (Scalar TFloat) Required [],
       FieldDecl ''questions'' (Scalar TJson) ListOf [],
       FieldDecl ''category'' (Scalar TString) Required [],
       FieldDecl ''improvementTip'' (Scalar TString) Required [],
       FieldDecl ''createdAt'' (Scalar TDateTime) Required [AtDefault DNow],
       FieldDecl ''updatedAt'' (Scalar TDateTime) Required [AtUpdatedAt] ]
     [[''userId'']]"

definition Resume_model :: model where
  "Resume_model = Model ''Resume''
     [ FieldDecl ''id'' (Scalar TString) Required [AtId, AtDefault DCuid],
       FieldDecl ''userId'' (Scalar TString) Required [AtUnique],
       FieldDecl ''user'' (ModelRef ''User'') Required [AtRelation [''userId''] [''id''] None None],
       FieldDecl ''content'' (Scalar TString) Required [AtDbText],
       FieldDecl ''atsScore'' (Scalar TFloat) Required [],
       FieldDecl ''feedback'' (Scalar TString) Required [],
       FieldDecl ''createdAt'' (Scalar TDateTime) Required [AtDefault DNow],
       FieldDecl ''updatedAt'' (Scalar TDateTime) Required [AtUpdatedAt] ]
     []"

definition CoverLetter_model :: model where
  "CoverLetter_model = Model ''CoverLetter''
     [ FieldDecl ''id'' (Scalar TString) Required [AtId, AtDefault DCuid],
       FieldDecl ''userId'' (Scalar TString) Required [],
       FieldDecl ''user'' (ModelRef ''User'') Required [AtRelation [''userId''] [''id''] None None],
       FieldDecl ''content'' (Scalar TString) Required [],
       FieldDecl ''jobDescription'' (Scalar TString) Optional [],
       FieldDecl ''companyName'' (Scalar TString) Required [],
       FieldDecl ''jobTitle'' (Scalar TString) Required [],
       FieldDecl ''createdAt'' (Scalar TDateTime) Required [AtDefault DNow],
       FieldDecl ''updatedAt'' (Scalar TDateTime) Required [AtUpdatedAt] ]
     [[''userId'']]"

definition IndustryInsight_model :: model where
  "IndustryInsight_model = Model ''IndustryInsight''
     [ FieldDecl ''id'' (Scalar TString) Required [AtId, AtDefault DCuid],
       FieldDecl ''industry'' (Scalar TString) Required [AtUnique],
       FieldDecl ''users'' (ModelRef ''User'') ListOf [],
       FieldDecl ''salaryRanges'' (Scalar TJson) ListOf [],
       FieldDecl ''growthRate'' (Scalar TFloat) Required [],
       FieldDecl ''demandLevel'' (Scalar (TEnum ''DemandLevel'')) Required [],
       FieldDecl ''topSkills'' (Scalar TString) ListOf [],
       FieldDecl ''marketOutlook'' (Scalar (TEnum ''MarketOutlook'')) Required [],
       FieldDecl ''keyTrends'' (Scalar TString) ListOf [],
       FieldDecl ''recommendedSkills'' (Scalar TString) ListOf [],
       FieldDecl ''lastUpdated'' (Scalar TDateTime) Required [AtDefault DNow],
       FieldDecl ''nextUpdate'' (Scalar TDateTime) Required [AtUpdatedAt] ]
     [[''industry'']]"

definition TokenTransaction_model :: model where
  "TokenTransaction_model = Model ''TokenTransaction''
     [ FieldDecl ''id'' (Scalar TString) Required [AtId, AtDefault DCuid],
       FieldDecl ''userId'' (Scalar TString) Required [],
       FieldDecl ''user'' (ModelRef ''User'') Required [AtRelation [''userId''] [''id''] None None],
       FieldDecl ''amount'' (Scalar TInt) Required [],
       FieldDecl ''description'' (Scalar TString) Required [],
       FieldDecl ''featureType'' (Scalar TString) Optional [],
       FieldDecl ''createdAt'' (Scalar TDateTime) Required [AtDefault DNow] ]
     [[''userId'']]"

definition Payment_model :: model where
  "Payment_model = Model ''Payment''
     [ FieldDecl ''id'' (Scalar TString) Required [AtId, AtDefault DCuid],
       FieldDecl ''userId'' (Scalar TString) Required [],
       FieldDecl ''user'' (ModelRef ''User'') Required [AtRelation [''userId''] [''id''] None None],
       FieldDecl ''amount'' (Scalar TFloat) Required [],
       FieldDecl ''currency'' (Scalar TString) Required [AtDefault (DLit (VStr ''INR''))],
       FieldDecl ''razorpayId'' (Scalar TString) Required [AtUnique],
       FieldDecl ''status'' (Scalar (TEnum ''PaymentStatus'')) Required
         [AtDefault (DLit (VEnum ''PENDING''))],
       FieldDecl ''tokensAdded'' (Scalar TInt) Required [],
       FieldDecl ''createdAt'' (Scalar TDateTime) Required [AtDefault DNow],
       FieldDecl ''updatedAt'' (Scalar TDateTime) Required [AtUpdatedAt] ]
     [[''userId'']]"

definition FeatureCost_model :: model where
  "FeatureCost_model = Model ''FeatureCost''
     [ FieldDecl ''id'' (Scalar TString) Required [AtId, AtDefault DCuid],
       FieldDecl ''featureName'' (Scalar TString) Required [AtUnique],
       FieldDecl ''tokenCost'' (Scalar TInt) Required [],
       FieldDecl ''description'' (Scalar TString) Optional [] ]
     []"

definition DemandLevel_enum :: enum_decl where
  "DemandLevel_enum = Enum ''DemandLevel'' [''HIGH'', ''MEDIUM'', ''LOW'']"

definition MarketOutlook_enum :: enum_decl where
  "MarketOutlook_enum = Enum ''MarketOutlook'' [''POSITIVE'', ''NEUTRAL'', ''NEGATIVE'']"

definition PaymentStatus_enum :: enum_decl where
  "PaymentStatus_enum = Enum ''PaymentStatus'' [''PENDING'', ''COMPLETED'', ''FAILED'']"

text \<open>The whole file, models and enums in the order they are declared.\<close>

definition schema :: schema_decl where
  "schema = Schema
     [ User_model, Assessment_model, Resume_model, CoverLetter_model,
       IndustryInsight_model, TokenTransaction_model, Payment_model, FeatureCost_model ]
     [ DemandLevel_enum, MarketOutlook_enum, PaymentStatus_enum ]"

lemmas model_defs =
  User_model_def Assessment_model_def Resume_model_def CoverLetter_model_def
  IndustryInsight_model_def TokenTransaction_model_def Payment_model_def FeatureCost_model_def

lemmas schema_defs =
  schema_def model_defs DemandLevel_enum_def MarketOutlook_enum_def PaymentStatus_enum_def


section \<open>The store\<close>

text \<open>
  A row is a function from field names to values (\<open>VNull\<close> for a field that holds
  nothing), a table is the list of its rows in insertion order, and the store maps each
  model name to its table. An \<^verbatim>\<open>Int\<close> column holds a 32-bit signed integer: the
  store refuses a value outside that range. \<^verbatim>\<open>Float\<close> and \<^verbatim>\<open>Json\<close> values
  are payloads that no operation below inspects.

  The error kinds are those of the specification; \<open>RestrictError\<close> is the store's refusal
  to delete or re-key a row that other rows still reference.
\<close>

datatype error =
  ConflictError | NotFoundError | InsufficientBalanceError | ValidationError | RestrictError

type_synonym row = "string \<Rightarrow> val"
type_synonym store = "string \<Rightarrow> row list"
type_synonym data = "(string \<times> val) list"

definition empty_store :: store where
  "empty_store = (\<lambda>m. [])"

definition find_model :: "schema_decl \<Rightarrow> string \<Rightarrow> model option" where
  "find_model sch m = find (\<lambda>md. mname md = m) (models sch)"

text \<open>Columns are the scalar fields; a field whose type is a model is a relation field.\<close>

definition scalar_fields :: "model \<Rightarrow> field list" where
  "scalar_fields md =
     filter (\<lambda>f. case ftype f of Scalar t \<Rightarrow> True | ModelRef p \<Rightarrow> False) (mfields md)"

definition find_field :: "model \<Rightarrow> string \<Rightarrow> field option" where
  "find_field md k = find (\<lambda>f. fname f = k) (scalar_fields md)"

text \<open>The fields under \<^verbatim>\<open>@id\<close> or \<^verbatim>\<open>@unique\<close>.\<close>

definition unique_fields :: "model \<Rightarrow> string list" where
  "unique_fields md =
     map fname (filter (\<lambda>f. AtId \<in> set (fattrs f) \<or> AtUnique \<in> set (fattrs f))
       (scalar_fields md))"

subsection \<open>Validation of the data of a call\<close>

fun scalar_ok :: "schema_decl \<Rightarrow> scalar_type \<Rightarrow> val \<Rightarrow> bool" where
  "scalar_ok sch TString (VStr s) = True"
| "scalar_ok sch TInt (VInt i) = (- 2147483648 \<le> i \<and> i \<le> 2147483647)"
| "scalar_ok sch TFloat (VFloat x) = True"
| "scalar_ok sch TDateTime (VTime t) = True"
| "scalar_ok sch TJson (VJson j) = True"
| "scalar_ok sch (TEnum e) (VEnum c) =
     (case find (\<lambda>d. ename d = e) (enums sch) of
        None \<Rightarrow> False
      | Some d \<Rightarrow> c \<in> set (evalues d))"
| "scalar_ok sch t v = False"

definition val_ok :: "schema_decl \<Rightarrow> field \<Rightarrow> val \<Rightarrow> bool" where
  "val_ok sch f v =
     (case ftype f of
        ModelRef p \<Rightarrow> False
      | Scalar t \<Rightarrow>
          (case fmod f of
             Required \<Rightarrow> scalar_ok sch t v
           | Optional \<Rightarrow> v = VNull \<or> scalar_ok sch t v
           | ListOf \<Rightarrow> (case v of VList vs \<Rightarrow> list_all (scalar_ok sch t) vs | _ \<Rightarrow> False)))"

text \<open>
  The data of a create or an update: an object with distinct keys, each the name of a
  column, each value of the column's type. The check is strict: a number with a
  fractional part is refused for an \<^verbatim>\<open>Int\<close> column, where the client would
  truncate it to an integer and store that.
\<close>

definition data_ok :: "schema_decl \<Rightarrow> model \<Rightarrow> data \<Rightarrow> bool" where
  "data_ok sch md d =
     (distinct (map fst d) \<and>
      list_all (\<lambda>(k, v). case find_field md k of None \<Rightarrow> False | Some f \<Rightarrow> val_ok sch f v) d)"

subsection \<open>Defaults\<close>

text \<open>
  \<^verbatim>\<open>uuid()\<close> and \<^verbatim>\<open>cuid()\<close> generate an identifier that no row of the table
  carries. The model picks one deterministically: a string longer than every string
  already in the column.
\<close>

fun str_len :: "val \<Rightarrow> nat" where
  "str_len (VStr s) = length s"
| "str_len v = 0"

definition fresh_id :: "val list \<Rightarrow> string" where
  "fresh_id used = replicate (Suc (fold max (map str_len used) 0)) (CHR ''c'')"

text \<open>
  What the store writes into a column that the data of a create leaves out: the
  \<^verbatim>\<open>@default\<close> of the field, the time of the call for \<^verbatim>\<open>@updatedAt\<close>.
\<close>

fun default_of :: "nat \<Rightarrow> val list \<Rightarrow> attribute list \<Rightarrow> val option" where
  "default_of now used [] = None"
| "default_of now used (AtDefault DUuid # as) = Some (VStr (fresh_id used))"
| "default_of now used (AtDefault DCuid # as) = Some (VStr (fresh_id used))"
| "default_of now used (AtDefault DNow # as) = Some (VTime now)"
| "default_of now used (AtDefault (DLit v) # as) = Some v"
| "default_of now used (AtUpdatedAt # as) = Some (VTime now)"
| "default_of now used (a # as) = default_of now used as"

definition initial_val :: "nat \<Rightarrow> row list \<Rightarrow> data \<Rightarrow> field \<Rightarrow> val option" where
  "initial_val now rows d f =
     (case map_of d (fname f) of
        Some v \<Rightarrow> Some v
      | None \<Rightarrow>
          (case default_of now (map (\<lambda>r. r (fname f)) rows) (fattrs f) of
             Some v \<Rightarrow> Some v
           | None \<Rightarrow>
               (case fmod f of
                  Required \<Rightarrow> None
                | Optional \<Rightarrow> Some VNull
                | ListOf \<Rightarrow> Some (VList []))))"

text \<open>The new row, or \<open>None\<close> when a required column has neither a value nor a default.\<close>

fun build_row :: "nat \<Rightarrow> row list \<Rightarrow> data \<Rightarrow> field list \<Rightarrow> row option" where
  "build_row now rows d [] = Some (\<lambda>k. VNull)"
| "build_row now rows d (f # fs) =
     (case initial_val now rows d f of
        None \<Rightarrow> None
      | Some v \<Rightarrow>
          (case build_row now rows d fs of
             None \<Rightarrow> None
           | Some r \<Rightarrow> Some (r(fname f := v))))"

text \<open>
  The row after an update. The data of the call overwrite their columns, and every
  \<^verbatim>\<open>@updatedAt\<close> column that the data do not write receives the time of the call.
  An update whose data are empty writes nothing: the client sends no statement to the
  store, and the row keeps every value, the \<^verbatim>\<open>@updatedAt\<close> columns included.
\<close>

definition is_updated_at :: "model \<Rightarrow> string \<Rightarrow> bool" where
  "is_updated_at md k =
     list_ex (\<lambda>f. fname f = k \<and> AtUpdatedAt \<in> set (fattrs f)) (scalar_fields md)"

definition patched :: "nat \<Rightarrow> model \<Rightarrow> data \<Rightarrow> row \<Rightarrow> row" where
  "patched now md d r =
     (if d = [] then r
      else (\<lambda>k. case map_of d k of
                   Some v \<Rightarrow> v
                 | None \<Rightarrow> if is_updated_at md k then VTime now else r k))"

subsection \<open>Relations and referential actions\<close>

text \<open>
  A relation is read off a relation field that carries \<^verbatim>\<open>@relation(fields: [f], references: [g])\<close>:
  column \<open>f\<close> of the declaring model (the child) holds a value of column \<open>g\<close> of the
  other model (the parent). Where the attribute writes no referential action, Prisma's
  defaults apply: \<^verbatim>\<open>onDelete\<close> is \<^verbatim>\<open>Restrict\<close> for a required foreign key and
  \<^verbatim>\<open>SetNull\<close> for an optional one, \<^verbatim>\<open>onUpdate\<close> is \<^verbatim>\<open>Cascade\<close>.
\<close>

datatype relation =
  Rel (child: string) (fk: string) (parent: string) (refd: string)
      (on_delete: ref_action) (on_update: ref_action)

definition required_field :: "model \<Rightarrow> string \<Rightarrow> bool" where
  "required_field md k =
     (case find_field md k of Some f \<Rightarrow> fmod f = Required | None \<Rightarrow> False)"

fun relation_of :: "model \<Rightarrow> string \<Rightarrow> attribute \<Rightarrow> relation list" where
  "relation_of md p (AtRelation [f] [g] d u) =
     [Rel (mname md) f p g
        (case d of Some a \<Rightarrow> a
                 | None \<Rightarrow> if required_field md f then Restrict else SetNull)
        (case u of Some a \<Rightarrow> a | None \<Rightarrow> Cascade)]"
| "relation_of md p a = []"

definition model_relations :: "model \<Rightarrow> relation list" where
  "model_relations md =
     concat (map (\<lambda>f. case ftype f of
                         ModelRef p \<Rightarrow> concat (map (relation_of md p) (fattrs f))
                       | Scalar t \<Rightarrow> [])
               (mfields md))"

definition relations :: "schema_decl \<Rightarrow> relation list" where
  "relations sch = concat (map model_relations (models sch))"

text \<open>A foreign key is null, or it is the key of a row of the parent table.\<close>

definition fk_ok :: "store \<Rightarrow> relation \<Rightarrow> row \<Rightarrow> bool" where
  "fk_ok st rel r =
     (r (fk rel) = VNull \<or> list_ex (\<lambda>p. p (refd rel) = r (fk rel)) (st (parent rel)))"

text \<open>
  What a referential action does to the child table when the parent key \<open>k\<close> goes away
  (\<open>None\<close>: the parent row is deleted) or becomes \<open>k'\<close>.
\<close>

fun apply_action ::
  "ref_action \<Rightarrow> string \<Rightarrow> val \<Rightarrow> val option \<Rightarrow> val \<Rightarrow> row list \<Rightarrow> error + row list" where
  "apply_action Restrict f k k' dv cs =
     (if list_ex (\<lambda>c. c f = k) cs then Inl RestrictError else Inr cs)"
| "apply_action NoAction f k k' dv cs =
     (if list_ex (\<lambda>c. c f = k) cs then Inl RestrictError else Inr cs)"
| "apply_action SetNull f k k' dv cs =
     Inr (map (\<lambda>c. if c f = k then c(f := VNull) else c) cs)"
| "apply_action SetDefault f k k' dv cs =
     Inr (map (\<lambda>c. if c f = k then c(f := dv) else c) cs)"
| "apply_action Cascade f k None dv cs =
     Inr (filter (\<lambda>c. c f \<noteq> k) cs)"
| "apply_action Cascade f k (Some k') dv cs =
     Inr (map (\<lambda>c. if c f = k then c(f := k') else c) cs)"

fun literal_default :: "attribute list \<Rightarrow> val" where
  "literal_default [] = VNull"
| "literal_default (AtDefault (DLit v) # as) = v"
| "literal_default (a # as) = literal_default as"

definition fk_default :: "schema_decl \<Rightarrow> relation \<Rightarrow> val" where
  "fk_default sch rel =
     (case find_model sch (child rel) of
        None \<Rightarrow> VNull
      | Some md \<Rightarrow>
          (case find_field md (fk rel) of
             None \<Rightarrow> VNull
           | Some f \<Rightarrow> literal_default (fattrs f)))"

text \<open>
  The referential actions of the relations that point at a row \<open>r\<close> that is deleted
  (\<open>None\<close>) or replaced by \<open>r'\<close>. A relation whose referenced key does not change, or
  is null, has nothing to do. The first refusal aborts the whole operation.
\<close>

fun propagate ::
  "schema_decl \<Rightarrow> relation list \<Rightarrow> row \<Rightarrow> row option \<Rightarrow> store \<Rightarrow> error + store" where
  "propagate sch [] r r' st = Inr st"
| "propagate sch (rel # rels) r r' st =
     (if r (refd rel) = VNull \<or>
         (case r' of Some x \<Rightarrow> x (refd rel) = r (refd rel) | None \<Rightarrow> False)
      then propagate sch rels r r' st
      else
        (case apply_action
                (case r' of None \<Rightarrow> on_delete rel | Some x \<Rightarrow> on_update rel)
                (fk rel) (r (refd rel)) (map_option (\<lambda>x. x (refd rel)) r')
                (fk_default sch rel) (st (child rel)) of
           Inl e \<Rightarrow> Inl e
         | Inr cs \<Rightarrow> propagate sch rels r r' (st(child rel := cs))))"

subsection \<open>Create, update and delete\<close>

text \<open>
  The three write operations of the client on one model. Each is one transaction: it
  returns the new store, or an error and no store. A create fills the columns, then the
  store checks the unique columns and the foreign keys of the new row. An update and a
  delete address one row by the value \<open>w\<close> of a unique column; the store checks the
  unique columns and foreign keys that the update changes, and runs the referential
  actions of the rows that reference the old one.
\<close>

definition conflicts :: "model \<Rightarrow> row list \<Rightarrow> row \<Rightarrow> bool" where
  "conflicts md rows r =
     list_ex (\<lambda>f. r f \<noteq> VNull \<and> list_ex (\<lambda>x. x f = r f) rows) (unique_fields md)"

definition create :: "schema_decl \<Rightarrow> nat \<Rightarrow> string \<Rightarrow> data \<Rightarrow> store \<Rightarrow> error + store" where
  "create sch now m d st =
     (case find_model sch m of
        None \<Rightarrow> Inl ValidationError
      | Some md \<Rightarrow>
          if \<not> data_ok sch md d then Inl ValidationError
          else
            (case build_row now (st m) d (scalar_fields md) of
               None \<Rightarrow> Inl ValidationError
             | Some r \<Rightarrow>
                 if conflicts md (st m) r then Inl ConflictError
                 else if \<not> list_all (\<lambda>rel. fk_ok st rel r)
                             (filter (\<lambda>rel. child rel = m) (relations sch))
                 then Inl NotFoundError
                 else Inr (st(m := st m @ [r]))))"

definition update ::
  "schema_decl \<Rightarrow> nat \<Rightarrow> string \<Rightarrow> string \<times> val \<Rightarrow> data \<Rightarrow> store \<Rightarrow> error + store" where
  "update sch now m w d st =
     (case find_model sch m of
        None \<Rightarrow> Inl ValidationError
      | Some md \<Rightarrow>
          if fst w \<notin> set (unique_fields md) \<or> snd w = VNull \<or> \<not> data_ok sch md d
          then Inl ValidationError
          else
            (case find (\<lambda>x. x (fst w) = snd w) (st m) of
               None \<Rightarrow> Inl NotFoundError
             | Some r \<Rightarrow>
                 let r' = patched now md d r in
                   if list_ex (\<lambda>f. r' f \<noteq> r f \<and> r' f \<noteq> VNull \<and>
                                    list_ex (\<lambda>x. x (fst w) \<noteq> snd w \<and> x f = r' f) (st m))
                        (unique_fields md)
                   then Inl ConflictError
                   else if \<not> list_all (\<lambda>rel. r' (fk rel) = r (fk rel) \<or> fk_ok st rel r')
                               (filter (\<lambda>rel. child rel = m) (relations sch))
                   then Inl NotFoundError
                   else propagate sch (filter (\<lambda>rel. parent rel = m) (relations sch))
                          r (Some r')
                          (st(m := map (\<lambda>x. if x (fst w) = snd w then r' else x) (st m)))))"

definition delete :: "schema_decl \<Rightarrow> string \<Rightarrow> string \<times> val \<Rightarrow> store \<Rightarrow> error + store" where
  "delete sch m w st =
     (case find_model sch m of
        None \<Rightarrow> Inl ValidationError
      | Some md \<Rightarrow>
          if fst w \<notin> set (unique_fields md) \<or> snd w = VNull then Inl ValidationError
          else
            (case find (\<lambda>x. x (fst w) = snd w) (st m) of
               None \<Rightarrow> Inl NotFoundError
             | Some r \<Rightarrow>
                 propagate sch (filter (\<lambda>rel. parent rel = m) (relations sch))
                   r None
                   (st(m := filter (\<lambda>x. x (fst w) \<noteq> snd w) (st m)))))"

text \<open>
  The states of the store: the empty one, and whatever a successful create, update or
  delete on the schema of the repository makes of a state. A failed operation makes no
  step.
\<close>

datatype command =
    Create string data
  | Update string "string \<times> val" data
  | Delete string "string \<times> val"

fun run :: "schema_decl \<Rightarrow> nat \<Rightarrow> command \<Rightarrow> store \<Rightarrow> error + store" where
  "run sch now (Create m d) st = create sch now m d st"
| "run sch now (Update m w d) st = update sch now m w d st"
| "run sch now (Delete m w) st = delete sch m w st"

inductive reachable :: "store \<Rightarrow> bool" where
  init: "reachable empty_store"
| step: "reachable st \<Longrightarrow> run schema now c st = Inr st' \<Longrightarrow> reachable st'"


section \<open>Invariants of the store\<close>

lemma fk_ok_set:
  "fk_ok st rel r =
     (r (fk rel) = VNull \<or> r (fk rel) \<in> set (map (\<lambda>p. p (refd rel)) (st (parent rel))))"
  unfolding fk_ok_def list_ex_iff by (simp add: image_iff) metis

lemma conflicts_set:
  "conflicts md rows r =
     (\<exists>f \<in> set (unique_fields md). r f \<noteq> VNull \<and> r f \<in> set (map (\<lambda>x. x f) rows))"
  unfolding conflicts_def list_ex_iff by (simp add: image_iff) metis



text \<open>
  \<open>unique_col f rows\<close>: no two rows of the table carry the same non-null value in
  column \<open>f\<close>. \<open>uniques_hold\<close>: this holds for every \<^verbatim>\<open>@id\<close> and \<^verbatim>\<open>@unique\<close>
  column of the schema. \<open>refs_hold\<close>: every foreign key of every relation is null or
  the key of a parent row.
\<close>


definition unique_col :: "string \<Rightarrow> row list \<Rightarrow> bool" where
  "unique_col f rows = distinct (filter (\<lambda>v. v \<noteq> VNull) (map (\<lambda>x. x f) rows))"

definition uniques_hold :: "schema_decl \<Rightarrow> store \<Rightarrow> bool" where
  "uniques_hold sch st =
     list_all (\<lambda>md. list_all (\<lambda>f. unique_col f (st (mname md))) (unique_fields md)) (models sch)"

definition refs_hold :: "schema_decl \<Rightarrow> store \<Rightarrow> bool" where
  "refs_hold sch st =
     list_all (\<lambda>rel. list_all (fk_ok st rel) (st (child rel))) (relations sch)"

lemma unique_col_Nil [simp]: "unique_col f []"
  by (simp add: unique_col_def)

lemma unique_col_Cons:
  "unique_col f (x # xs) = (unique_col f xs \<and> (x f = VNull \<or> (\<forall>y \<in> set xs. y f \<noteq> x f)))"
  by (auto simp: unique_col_def image_iff)

lemma unique_col_append:
  "unique_col f rows \<Longrightarrow> r f = VNull \<or> r f \<notin> set (map (\<lambda>x. x f) rows) \<Longrightarrow> unique_col f (rows @ [r])"
  by (induction rows) (auto simp: unique_col_Cons image_iff)

lemma unique_col_filter: "unique_col f rows \<Longrightarrow> unique_col f (filter P rows)"
  by (induction rows) (auto simp: unique_col_Cons)

lemma unique_col_same:
  "unique_col f rows \<Longrightarrow> x \<in> set rows \<Longrightarrow> y \<in> set rows \<Longrightarrow> x f = y f \<Longrightarrow> x f \<noteq> VNull \<Longrightarrow> x = y"
  by (induction rows) (auto simp: unique_col_Cons)

lemma unique_col_replace:
  "unique_col f rows \<Longrightarrow> unique_col w rows \<Longrightarrow> v \<noteq> VNull \<Longrightarrow>
   \<forall>x \<in> set rows. x w \<noteq> v \<longrightarrow> r' f = VNull \<or> x f \<noteq> r' f \<Longrightarrow>
   unique_col f (map (\<lambda>x. if x w = v then r' else x) rows)"
proof (induction rows)
  case Nil
  then show ?case by simp
next
  case (Cons a rows)
  then have IH: "unique_col f (map (\<lambda>x. if x w = v then r' else x) rows)"
    by (simp add: unique_col_Cons)
  show ?case
  proof (cases "a w = v")
    case True
    with Cons.prems have "\<forall>x \<in> set rows. x w \<noteq> v"
      by (auto simp: unique_col_Cons)
    with Cons.prems IH True show ?thesis
      by (auto simp: unique_col_Cons)
  next
    case False
    with Cons.prems IH show ?thesis
      by (auto simp: unique_col_Cons split: if_splits)
  qed
qed

lemma unique_col_other_field:
  "\<forall>x \<in> set rows. g x f = x f \<Longrightarrow> unique_col f (map g rows) = unique_col f rows"
  by (induction rows) (auto simp: unique_col_Cons)

lemma unique_col_rekey:
  "unique_col f cs \<Longrightarrow> k \<noteq> VNull \<Longrightarrow> k' = VNull \<or> k' \<notin> set (map (\<lambda>x. x f) cs) \<Longrightarrow>
   unique_col f (map (\<lambda>c. if c f = k then c(f := k') else c) cs)"
proof (induction cs)
  case Nil
  then show ?case by simp
next
  case (Cons a cs)
  then have IH: "unique_col f (map (\<lambda>c. if c f = k then c(f := k') else c) cs)"
    by (auto simp: unique_col_Cons image_iff)
  show ?case
  proof (cases "a f = k")
    case True
    with Cons.prems have "\<forall>x \<in> set cs. x f \<noteq> k"
      by (auto simp: unique_col_Cons)
    with Cons.prems IH True show ?thesis
      by (auto simp: unique_col_Cons image_iff)
  next
    case False
    with Cons.prems IH show ?thesis
      by (auto simp: unique_col_Cons image_iff split: if_splits)
  qed
qed

lemma str_len_le_fold: "v \<in> set vs \<Longrightarrow> str_len v \<le> fold max (map str_len vs) n"
proof (induction vs arbitrary: n)
  case Nil
  then show ?case by simp
next
  case (Cons a vs)
  have mono: "\<And>m xs. m \<le> fold max xs (m::nat)"
  proof -
    fix m :: nat and xs show "m \<le> fold max xs m"
      by (induction xs arbitrary: m) (auto intro: order_trans[OF max.cobounded2])
  qed
  show ?case
  proof (cases "v = a")
    case True
    then show ?thesis using mono[of "max (str_len a) n" "map str_len vs"] by simp
  next
    case False
    with Cons show ?thesis by simp
  qed
qed

lemma fresh_id_fresh: "VStr (fresh_id used) \<notin> set used"
proof
  assume "VStr (fresh_id used) \<in> set used"
  from str_len_le_fold[OF this, of 0] show False
    by (simp add: fresh_id_def)
qed




definition wf_schema :: "schema_decl \<Rightarrow> bool" where
  "wf_schema sch =
     (distinct (map mname (models sch)) \<and>
      distinct (map child (relations sch)) \<and>
      list_all (\<lambda>rel.
          child rel \<noteq> parent rel \<and>
          on_update rel = Cascade \<and>
          (on_delete rel = Restrict \<or> on_delete rel = SetNull) \<and>
          (case find_model sch (parent rel) of
             None \<Rightarrow> False
           | Some pm \<Rightarrow> refd rel \<in> set (unique_fields pm)) \<and>
          list_all (\<lambda>rel'. child rel \<noteq> parent rel' \<or> fk rel \<noteq> refd rel') (relations sch))
        (relations sch))"

lemma relations_schema:
  "relations schema =
     [ Rel ''User'' ''industry'' ''IndustryInsight'' ''industry'' SetNull Cascade,
       Rel ''Assessment'' ''userId'' ''User'' ''id'' Restrict Cascade,
       Rel ''Resume'' ''userId'' ''User'' ''id'' Restrict Cascade,
       Rel ''CoverLetter'' ''userId'' ''User'' ''id'' Restrict Cascade,
       Rel ''TokenTransaction'' ''userId'' ''User'' ''id'' Restrict Cascade,
       Rel ''Payment'' ''userId'' ''User'' ''id'' Restrict Cascade ]"
  by (simp add: relations_def model_relations_def schema_defs required_field_def
        find_field_def scalar_fields_def)

lemma wf_schema_schema: "wf_schema schema"
  unfolding wf_schema_def relations_schema
  by (simp add: schema_defs find_model_def unique_fields_def scalar_fields_def)

lemma find_model_Some:
  "find_model sch m = Some md \<Longrightarrow> md \<in> set (models sch) \<and> mname md = m"
  unfolding find_model_def by (induction "models sch" arbitrary: sch) (auto simp: find_Some_iff)

lemma find_model_unique:
  "distinct (map mname (models sch)) \<Longrightarrow> md \<in> set (models sch) \<Longrightarrow>
   find_model sch (mname md) = Some md"
proof -
  assume d: "distinct (map mname (models sch))" and m: "md \<in> set (models sch)"
  have "\<And>xs. distinct (map mname xs) \<Longrightarrow> md \<in> set xs \<Longrightarrow>
          find (\<lambda>x. mname x = mname md) xs = Some md"
  proof -
    fix xs show "distinct (map mname xs) \<Longrightarrow> md \<in> set xs \<Longrightarrow>
          find (\<lambda>x. mname x = mname md) xs = Some md"
      by (induction xs) (auto simp: image_iff)
  qed
  from this[OF d m] show ?thesis by (simp add: find_model_def)
qed

lemma uniques_holdD:
  "uniques_hold sch st \<Longrightarrow> md \<in> set (models sch) \<Longrightarrow> f \<in> set (unique_fields md) \<Longrightarrow>
   unique_col f (st (mname md))"
  by (auto simp: uniques_hold_def list_all_iff)

lemma uniques_holdI:
  "(\<And>md f. md \<in> set (models sch) \<Longrightarrow> f \<in> set (unique_fields md) \<Longrightarrow>
      unique_col f (st (mname md))) \<Longrightarrow> uniques_hold sch st"
  by (auto simp: uniques_hold_def list_all_iff)

lemma refs_holdD:
  "refs_hold sch st \<Longrightarrow> rel \<in> set (relations sch) \<Longrightarrow> c \<in> set (st (child rel)) \<Longrightarrow>
   fk_ok st rel c"
  by (auto simp: refs_hold_def list_all_iff)

lemma refs_holdI:
  "(\<And>rel c. rel \<in> set (relations sch) \<Longrightarrow> c \<in> set (st (child rel)) \<Longrightarrow> fk_ok st rel c)
   \<Longrightarrow> refs_hold sch st"
  by (auto simp: refs_hold_def list_all_iff)

lemma fk_ok_mono:
  "fk_ok st rel c \<Longrightarrow>
   set (map (\<lambda>p. p (refd rel)) (st (parent rel))) \<subseteq> set (map (\<lambda>p. p (refd rel)) (st' (parent rel)))
   \<Longrightarrow> fk_ok st' rel c"
  by (auto simp: fk_ok_set)

text \<open>What a successful create does.\<close>

lemma create_Inr:
  assumes "create sch now m d st = Inr st'"
  obtains md r where "find_model sch m = Some md" "data_ok sch md d"
    "build_row now (st m) d (scalar_fields md) = Some r"
    "\<not> conflicts md (st m) r"
    "\<forall>rel \<in> set (relations sch). child rel = m \<longrightarrow> fk_ok st rel r"
    "st' = st(m := st m @ [r])"
  using assms unfolding create_def
  by (auto split: option.splits if_splits simp: list_all_iff)

lemma create_uniques:
  assumes d: "distinct (map mname (models sch))"
    and u: "uniques_hold sch st"
    and c: "create sch now m d st = Inr st'"
  shows "uniques_hold sch st'"
proof (rule uniques_holdI)
  fix md' f assume md': "md' \<in> set (models sch)" and f: "f \<in> set (unique_fields md')"
  from c obtain md r where fm: "find_model sch m = Some md"
    and nc: "\<not> conflicts md (st m) r" and st': "st' = st(m := st m @ [r])"
    by (rule create_Inr)
  have old: "unique_col f (st (mname md'))" using uniques_holdD[OF u md' f] .
  show "unique_col f (st' (mname md'))"
  proof (cases "mname md' = m")
    case True
    with find_model_unique[OF d md'] fm have "md' = md" by simp
    with nc f have "r f = VNull \<or> r f \<notin> set (map (\<lambda>x. x f) (st m))"
      by (auto simp: conflicts_set)
    with old True st' show ?thesis by (simp add: unique_col_append)
  next
    case False
    with old st' show ?thesis by simp
  qed
qed

lemma create_refs:
  assumes r: "refs_hold sch st"
    and c: "create sch now m d st = Inr st'"
  shows "refs_hold sch st'"
proof (rule refs_holdI)
  fix rel c0 assume rel: "rel \<in> set (relations sch)" and c0: "c0 \<in> set (st' (child rel))"
  from c obtain md r0 where
    fk: "\<forall>rel \<in> set (relations sch). child rel = m \<longrightarrow> fk_ok st rel r0"
    and st': "st' = st(m := st m @ [r0])"
    by (rule create_Inr)
  have sub: "set (map (\<lambda>p. p (refd rel)) (st (parent rel))) \<subseteq> set (map (\<lambda>p. p (refd rel)) (st' (parent rel)))"
    using st' by auto
  have "fk_ok st rel c0"
  proof (cases "c0 \<in> set (st (child rel))")
    case True
    then show ?thesis using refs_holdD[OF r rel] by simp
  next
    case False
    with c0 st' have "child rel = m" "c0 = r0" by (auto split: if_splits)
    with fk rel show ?thesis by simp
  qed
  then show "fk_ok st' rel c0" using sub by (rule fk_ok_mono)
qed

text \<open>What the referential actions leave alone, and what they do to a child table.\<close>

lemma propagate_frame:
  "propagate sch rels r r' st = Inr st' \<Longrightarrow> C \<notin> child ` set rels \<Longrightarrow> st' C = st C"
proof (induction rels arbitrary: st)
  case Nil
  then show ?case by simp
next
  case (Cons a rels)
  then show ?case
    by (auto split: if_splits sum.splits)
qed

lemma propagate_at:
  assumes "distinct (map child rels)" "rel \<in> set rels" "propagate sch rels r r' st = Inr st'"
  shows "if r (refd rel) = VNull \<or>
            (case r' of Some x \<Rightarrow> x (refd rel) = r (refd rel) | None \<Rightarrow> False)
         then st' (child rel) = st (child rel)
         else apply_action (case r' of None \<Rightarrow> on_delete rel | Some x \<Rightarrow> on_update rel)
                (fk rel) (r (refd rel)) (map_option (\<lambda>x. x (refd rel)) r')
                (fk_default sch rel) (st (child rel)) = Inr (st' (child rel))"
  using assms
proof (induction rels arbitrary: st)
  case Nil
  then show ?case by simp
next
  case (Cons a rels)
  show ?case
  proof (cases "rel = a")
    case True
    have notin: "child a \<notin> child ` set rels" using Cons.prems(1) by auto
    show ?thesis
    proof (cases "r (refd a) = VNull \<or>
            (case r' of Some x \<Rightarrow> x (refd a) = r (refd a) | None \<Rightarrow> False)")
      case skip: True
      with Cons.prems(3) have "propagate sch rels r r' st = Inr st'" by simp
      from propagate_frame[OF this notin] skip show ?thesis unfolding True by simp
    next
      case noskip: False
      with Cons.prems(3) obtain cs where
        a: "apply_action (case r' of None \<Rightarrow> on_delete a | Some x \<Rightarrow> on_update a)
                (fk a) (r (refd a)) (map_option (\<lambda>x. x (refd a)) r')
                (fk_default sch a) (st (child a)) = Inr cs"
        and p: "propagate sch rels r r' (st(child a := cs)) = Inr st'"
        by (auto split: sum.splits)
      from propagate_frame[OF p notin] have "st' (child a) = cs" by simp
      with a noskip show ?thesis unfolding True by simp
    qed
  next
    case False
    with Cons.prems(2) have in_rels: "rel \<in> set rels" by simp
    from Cons.prems(1) have dist: "distinct (map child rels)" by simp
    from Cons.prems(1) in_rels have ne: "child rel \<noteq> child a" by (auto simp: image_iff)
    show ?thesis
    proof (cases "r (refd a) = VNull \<or>
            (case r' of Some x \<Rightarrow> x (refd a) = r (refd a) | None \<Rightarrow> False)")
      case True
      with Cons.prems(3) have "propagate sch rels r r' st = Inr st'" by simp
      from Cons.IH[OF dist in_rels this] show ?thesis .
    next
      case False
      with Cons.prems(3) obtain cs where
        p: "propagate sch rels r r' (st(child a := cs)) = Inr st'"
        by (auto split: sum.splits)
      have eq: "(st(child a := cs)) (child rel) = st (child rel)" using ne by simp
      from Cons.IH[OF dist in_rels p] show ?thesis unfolding eq .
    qed
  qed
qed




lemma wf_schemaD:
  assumes "wf_schema sch" "rel \<in> set (relations sch)"
  shows "child rel \<noteq> parent rel" "on_update rel = Cascade"
    "on_delete rel = Restrict \<or> on_delete rel = SetNull"
    "\<exists>pm. find_model sch (parent rel) = Some pm \<and> refd rel \<in> set (unique_fields pm)"
    "\<And>rel'. rel' \<in> set (relations sch) \<Longrightarrow> child rel = parent rel' \<Longrightarrow> fk rel \<noteq> refd rel'"
  using assms unfolding wf_schema_def
  by (auto simp: list_all_iff split: option.splits)

lemma wf_schema_names: "wf_schema sch \<Longrightarrow> distinct (map mname (models sch))"
  by (simp add: wf_schema_def)

lemma wf_schema_children:
  assumes "wf_schema sch"
  shows "distinct (map child (filter P (relations sch)))"
    and "\<And>rel rel'. rel \<in> set (relations sch) \<Longrightarrow> rel' \<in> set (relations sch) \<Longrightarrow>
           child rel = child rel' \<Longrightarrow> rel = rel'"
proof -
  from assms have d: "distinct (map child (relations sch))" by (simp add: wf_schema_def)
  then show "distinct (map child (filter P (relations sch)))" by (rule distinct_map_filter)
  fix rel rel' assume "rel \<in> set (relations sch)" "rel' \<in> set (relations sch)" "child rel = child rel'"
  with d show "rel = rel'" by (auto simp: distinct_map inj_on_def)
qed

lemma find_SomeD: "find P xs = Some r \<Longrightarrow> r \<in> set xs \<and> P r"
  by (induction xs) (auto split: if_splits)

lemma update_Inr:
  assumes u: "update sch now m (w, v) d st = Inr st'"
  obtains md r where "find_model sch m = Some md" "w \<in> set (unique_fields md)" "v \<noteq> VNull"
    "data_ok sch md d" "find (\<lambda>x. x w = v) (st m) = Some r"
    "\<forall>f \<in> set (unique_fields md).
        patched now md d r f = r f \<or> patched now md d r f = VNull \<or>
        (\<forall>x \<in> set (st m). x w \<noteq> v \<longrightarrow> x f \<noteq> patched now md d r f)"
    "\<forall>rel \<in> set (relations sch). child rel = m \<longrightarrow>
        patched now md d r (fk rel) = r (fk rel) \<or> fk_ok st rel (patched now md d r)"
    "propagate sch (filter (\<lambda>rel. parent rel = m) (relations sch)) r
       (Some (patched now md d r))
       (st(m := map (\<lambda>x. if x w = v then patched now md d r else x) (st m))) = Inr st'"
proof -
  from u obtain md where fm: "find_model sch m = Some md"
    unfolding update_def by (auto split: option.splits)
  from u fm have g: "w \<in> set (unique_fields md)" "v \<noteq> VNull" "data_ok sch md d"
    unfolding update_def by (auto split: if_splits)
  from u fm g obtain r where fr: "find (\<lambda>x. x w = v) (st m) = Some r"
    unfolding update_def by (auto split: option.splits)
  let ?r' = "patched now md d r"
  from u fm g fr have
    c1: "\<not> list_ex (\<lambda>f. ?r' f \<noteq> r f \<and> ?r' f \<noteq> VNull \<and>
              list_ex (\<lambda>x. x w \<noteq> v \<and> x f = ?r' f) (st m)) (unique_fields md)"
    and c2: "list_all (\<lambda>rel. ?r' (fk rel) = r (fk rel) \<or> fk_ok st rel ?r')
               (filter (\<lambda>rel. child rel = m) (relations sch))"
    and c3: "propagate sch (filter (\<lambda>rel. parent rel = m) (relations sch)) r (Some ?r')
       (st(m := map (\<lambda>x. if x w = v then ?r' else x) (st m))) = Inr st'"
    unfolding update_def by (auto simp: Let_def split: if_splits)
  have cf: "\<forall>f \<in> set (unique_fields md).
        ?r' f = r f \<or> ?r' f = VNull \<or> (\<forall>x \<in> set (st m). x w \<noteq> v \<longrightarrow> x f \<noteq> ?r' f)"
  proof (intro ballI)
    fix f assume f: "f \<in> set (unique_fields md)"
    with c1 have n: "\<not> (?r' f \<noteq> r f \<and> ?r' f \<noteq> VNull \<and>
              list_ex (\<lambda>x. x w \<noteq> v \<and> x f = ?r' f) (st m))"
      unfolding list_ex_iff[of _ "unique_fields md"] by blast
    have "x f \<noteq> ?r' f" if "?r' f \<noteq> r f" "?r' f \<noteq> VNull" "x \<in> set (st m)" "x w \<noteq> v" for x
    proof
      assume "x f = ?r' f"
      with that(3,4) have "list_ex (\<lambda>x. x w \<noteq> v \<and> x f = ?r' f) (st m)"
        unfolding list_ex_iff by blast
      with n that(1,2) show False by simp
    qed
    then show "?r' f = r f \<or> ?r' f = VNull \<or> (\<forall>x \<in> set (st m). x w \<noteq> v \<longrightarrow> x f \<noteq> ?r' f)"
      by blast
  qed
  from c2 have fk: "\<forall>rel \<in> set (relations sch). child rel = m \<longrightarrow>
        ?r' (fk rel) = r (fk rel) \<or> fk_ok st rel ?r'"
    by (auto simp: list_all_iff)
  show thesis by (rule that[OF fm g fr cf fk c3])
qed

lemma delete_Inr:
  assumes "delete sch m (w, v) st = Inr st'"
  obtains md r where "find_model sch m = Some md" "w \<in> set (unique_fields md)" "v \<noteq> VNull"
    "find (\<lambda>x. x w = v) (st m) = Some r"
    "propagate sch (filter (\<lambda>rel. parent rel = m) (relations sch)) r None
       (st(m := filter (\<lambda>x. x w \<noteq> v) (st m))) = Inr st'"
  using assms unfolding delete_def
  by (auto split: option.splits if_splits)

text \<open>The tables after an update.\<close>

lemma update_effect:
  assumes wf: "wf_schema sch" and u: "update sch now m (w, v) d st = Inr st'"
  obtains md r r' where
    "find_model sch m = Some md" "w \<in> set (unique_fields md)" "v \<noteq> VNull"
    "data_ok sch md d"
    "find (\<lambda>x. x w = v) (st m) = Some r" "r' = patched now md d r"
    "\<forall>f \<in> set (unique_fields md).
        r' f = r f \<or> r' f = VNull \<or> (\<forall>x \<in> set (st m). x w \<noteq> v \<longrightarrow> x f \<noteq> r' f)"
    "\<forall>rel \<in> set (relations sch). child rel = m \<longrightarrow>
        r' (fk rel) = r (fk rel) \<or> fk_ok st rel r'"
    "st' m = map (\<lambda>x. if x w = v then r' else x) (st m)"
    "\<And>rel. rel \<in> set (relations sch) \<Longrightarrow> parent rel = m \<Longrightarrow>
        st' (child rel) =
          (if r (refd rel) = VNull \<or> r' (refd rel) = r (refd rel) then st (child rel)
           else map (\<lambda>c. if c (fk rel) = r (refd rel) then c(fk rel := r' (refd rel)) else c)
                  (st (child rel)))"
    "\<And>C. C \<noteq> m \<Longrightarrow> \<forall>rel \<in> set (relations sch). parent rel = m \<longrightarrow> child rel \<noteq> C \<Longrightarrow>
        st' C = st C"
proof -
  let ?rels = "filter (\<lambda>rel. parent rel = m) (relations sch)"
  from u obtain md r where fm: "find_model sch m = Some md"
    and w: "w \<in> set (unique_fields md)" and v: "v \<noteq> VNull" and dok: "data_ok sch md d"
    and fr: "find (\<lambda>x. x w = v) (st m) = Some r"
    and cf: "\<forall>f \<in> set (unique_fields md).
        patched now md d r f = r f \<or> patched now md d r f = VNull \<or>
        (\<forall>x \<in> set (st m). x w \<noteq> v \<longrightarrow> x f \<noteq> patched now md d r f)"
    and fk: "\<forall>rel \<in> set (relations sch). child rel = m \<longrightarrow>
        patched now md d r (fk rel) = r (fk rel) \<or> fk_ok st rel (patched now md d r)"
    and pr: "propagate sch ?rels r (Some (patched now md d r))
       (st(m := map (\<lambda>x. if x w = v then patched now md d r else x) (st m))) = Inr st'"
    by (rule update_Inr)
  let ?r' = "patched now md d r"
  let ?st1 = "st(m := map (\<lambda>x. if x w = v then ?r' else x) (st m))"
  have m_notin: "m \<notin> child ` set ?rels"
  proof
    assume "m \<in> child ` set ?rels"
    then obtain rel where "rel \<in> set (relations sch)" "parent rel = m" "child rel = m"
      by auto
    with wf_schemaD(1)[OF wf this(1)] show False by simp
  qed
  have t_m: "st' m = map (\<lambda>x. if x w = v then ?r' else x) (st m)"
    using propagate_frame[OF pr m_notin] by simp
  have t_child: "st' (child rel) =
          (if r (refd rel) = VNull \<or> ?r' (refd rel) = r (refd rel) then st (child rel)
           else map (\<lambda>c. if c (fk rel) = r (refd rel) then c(fk rel := ?r' (refd rel)) else c)
                  (st (child rel)))"
    if rel: "rel \<in> set (relations sch)" and par: "parent rel = m" for rel
  proof -
    from rel par have in_rels: "rel \<in> set ?rels" by simp
    have ne: "child rel \<noteq> m" using wf_schemaD(1)[OF wf rel] par by simp
    have casc: "on_update rel = Cascade" using wf_schemaD(2)[OF wf rel] .
    note at = propagate_at[OF wf_schema_children(1)[OF wf] in_rels pr]
    show ?thesis
    proof (cases "r (refd rel) = VNull \<or> ?r' (refd rel) = r (refd rel)")
      case True
      with at ne show ?thesis by simp
    next
      case False
      with at ne casc show ?thesis by simp
    qed
  qed
  have t_other: "st' C = st C"
    if "C \<noteq> m" and "\<forall>rel \<in> set (relations sch). parent rel = m \<longrightarrow> child rel \<noteq> C" for C
  proof -
    from that(2) have "C \<notin> child ` set ?rels" by auto
    from propagate_frame[OF pr this] that(1) show ?thesis by simp
  qed
  show thesis
    by (rule that[OF fm w v dok fr refl cf fk t_m t_child t_other])
qed

text \<open>The tables after a delete.\<close>

lemma delete_effect:
  assumes wf: "wf_schema sch" and u: "delete sch m (w, v) st = Inr st'"
  obtains md r where
    "find_model sch m = Some md" "w \<in> set (unique_fields md)" "v \<noteq> VNull"
    "find (\<lambda>x. x w = v) (st m) = Some r"
    "st' m = filter (\<lambda>x. x w \<noteq> v) (st m)"
    "\<And>rel. rel \<in> set (relations sch) \<Longrightarrow> parent rel = m \<Longrightarrow>
        (if r (refd rel) = VNull then st' (child rel) = st (child rel)
         else if on_delete rel = Restrict
           then (\<forall>c \<in> set (st (child rel)). c (fk rel) \<noteq> r (refd rel)) \<and>
                st' (child rel) = st (child rel)
           else st' (child rel) =
                  map (\<lambda>c. if c (fk rel) = r (refd rel) then c(fk rel := VNull) else c)
                    (st (child rel)))"
    "\<And>C. C \<noteq> m \<Longrightarrow> \<forall>rel \<in> set (relations sch). parent rel = m \<longrightarrow> child rel \<noteq> C \<Longrightarrow>
        st' C = st C"
proof -
  let ?rels = "filter (\<lambda>rel. parent rel = m) (relations sch)"
  from u obtain md r where fm: "find_model sch m = Some md"
    and w: "w \<in> set (unique_fields md)" and v: "v \<noteq> VNull"
    and fr: "find (\<lambda>x. x w = v) (st m) = Some r"
    and pr: "propagate sch ?rels r None (st(m := filter (\<lambda>x. x w \<noteq> v) (st m))) = Inr st'"
    by (rule delete_Inr)
  have m_notin: "m \<notin> child ` set ?rels"
  proof
    assume "m \<in> child ` set ?rels"
    then obtain rel where "rel \<in> set (relations sch)" "parent rel = m" "child rel = m"
      by auto
    with wf_schemaD(1)[OF wf this(1)] show False by simp
  qed
  have t_m: "st' m = filter (\<lambda>x. x w \<noteq> v) (st m)"
    using propagate_frame[OF pr m_notin] by simp
  have t_child: "if r (refd rel) = VNull then st' (child rel) = st (child rel)
         else if on_delete rel = Restrict
           then (\<forall>c \<in> set (st (child rel)). c (fk rel) \<noteq> r (refd rel)) \<and>
                st' (child rel) = st (child rel)
           else st' (child rel) =
                  map (\<lambda>c. if c (fk rel) = r (refd rel) then c(fk rel := VNull) else c)
                    (st (child rel))"
    if rel: "rel \<in> set (relations sch)" and par: "parent rel = m" for rel
  proof -
    from rel par have in_rels: "rel \<in> set ?rels" by simp
    have ne: "child rel \<noteq> m" using wf_schemaD(1)[OF wf rel] par by simp
    note at = propagate_at[OF wf_schema_children(1)[OF wf] in_rels pr]
    show ?thesis
    proof (cases "r (refd rel) = VNull")
      case True
      with at ne show ?thesis by simp
    next
      case False
      from wf_schemaD(3)[OF wf rel] show ?thesis
      proof
        assume "on_delete rel = Restrict"
        with at ne False show ?thesis
          by (auto simp: list_ex_iff split: if_splits)
      next
        assume "on_delete rel = SetNull"
        with at ne False show ?thesis by simp
      qed
    qed
  qed
  have t_other: "st' C = st C"
    if "C \<noteq> m" and "\<forall>rel \<in> set (relations sch). parent rel = m \<longrightarrow> child rel \<noteq> C" for C
  proof -
    from that(2) have "C \<notin> child ` set ?rels" by auto
    from propagate_frame[OF pr this] that(1) show ?thesis by simp
  qed
  show thesis
    by (rule that[OF fm w v fr t_m t_child t_other])
qed




lemma unique_col_setnull:
  "unique_col f cs \<Longrightarrow> unique_col f (map (\<lambda>c. if c f = k then c(f := VNull) else c) cs)"
  by (induction cs) (auto simp: unique_col_Cons image_iff split: if_splits)

lemma update_uniques:
  assumes wf: "wf_schema sch" and uh: "uniques_hold sch st" and rh: "refs_hold sch st"
    and u: "update sch now m (w, v) d st = Inr st'"
  shows "uniques_hold sch st'"
proof (rule uniques_holdI)
  fix md' f assume md': "md' \<in> set (models sch)" and f: "f \<in> set (unique_fields md')"
  show "unique_col f (st' (mname md'))"
    using wf u
  proof (cases rule: update_effect)
  case (1 md r r')
  note fm = 1(1) and w = 1(2) and v = 1(3) and fr = 1(5) and cf = 1(7)
    and t_m = 1(9) and t_child = 1(10) and t_other = 1(11)
  from find_model_Some[OF fm] have md: "md \<in> set (models sch)" and mn: "mname md = m" by simp_all
  from find_SomeD[OF fr] have r_in: "r \<in> set (st m)" and r_w: "r w = v" by simp_all
  have uw: "unique_col w (st m)" using uniques_holdD[OF uh md w] mn by simp
  have old: "unique_col f (st (mname md'))" using uniques_holdD[OF uh md' f] .
  have only_r: "x = r" if "x \<in> set (st m)" "x w = v" for x
    using unique_col_same[OF uw that(1) r_in] that(2) r_w v by simp
  show ?thesis
  proof (cases "mname md' = m")
    case True
    with find_model_unique[OF wf_schema_names[OF wf] md'] fm have same: "md' = md" by simp
    have uf: "unique_col f (st m)" using old True by simp
    have "r' f = VNull \<or> x f \<noteq> r' f" if x: "x \<in> set (st m)" "x w \<noteq> v" for x
    proof -
      from cf f same have "r' f = r f \<or> r' f = VNull \<or> (\<forall>x \<in> set (st m). x w \<noteq> v \<longrightarrow> x f \<noteq> r' f)"
        by simp
      moreover have "x f \<noteq> r f" if "r f \<noteq> VNull"
      proof
        assume "x f = r f"
        from unique_col_same[OF uf x(1) r_in this] that \<open>x f = r f\<close> have "x = r" by simp
        with x(2) r_w show False by simp
      qed
      ultimately show ?thesis using x by auto
    qed
    then have "\<forall>x \<in> set (st m). x w \<noteq> v \<longrightarrow> r' f = VNull \<or> x f \<noteq> r' f" by blast
    from unique_col_replace[of f "st m" w v r', OF uf uw v this] t_m True show ?thesis by simp
  next
    case ne: False
    show ?thesis
    proof (cases "\<exists>rel \<in> set (relations sch). parent rel = m \<and> child rel = mname md'")
      case True
      then obtain rel where rel: "rel \<in> set (relations sch)" and par: "parent rel = m"
        and ch: "child rel = mname md'" by blast
      note tc = t_child[OF rel par]
      show ?thesis
      proof (cases "r (refd rel) = VNull \<or> r' (refd rel) = r (refd rel)")
        case True
        with tc ch old show ?thesis by simp
      next
        case False
        then have k: "r (refd rel) \<noteq> VNull" and kk': "r' (refd rel) \<noteq> r (refd rel)" by simp_all
        from False tc ch have st'C: "st' (mname md') =
            map (\<lambda>c. if c (fk rel) = r (refd rel) then c(fk rel := r' (refd rel)) else c)
              (st (mname md'))" by simp
        show ?thesis
        proof (cases "f = fk rel")
          case True
          have fresh: "r' (refd rel) = VNull \<or>
                r' (refd rel) \<notin> set (map (\<lambda>x. x (fk rel)) (st (mname md')))"
          proof (rule disjCI)
            assume "\<not> r' (refd rel) \<notin> set (map (\<lambda>x. x (fk rel)) (st (mname md')))"
            then obtain c where c: "c \<in> set (st (child rel))" and ck: "c (fk rel) = r' (refd rel)"
              using ch by auto
            show "r' (refd rel) = VNull"
            proof (rule ccontr)
              assume nn: "r' (refd rel) \<noteq> VNull"
              from refs_holdD[OF rh rel c] ck nn par
              obtain p where p: "p \<in> set (st m)" and pg: "p (refd rel) = r' (refd rel)"
                by (auto simp: fk_ok_set)
              from wf_schemaD(4)[OF wf rel] par fm have g: "refd rel \<in> set (unique_fields md)"
                by auto
              with cf kk' nn have "\<forall>x \<in> set (st m). x w \<noteq> v \<longrightarrow> x (refd rel) \<noteq> r' (refd rel)"
                by blast
              with p pg have "p w = v" by blast
              from only_r[OF p this] pg kk' show False by simp
            qed
          qed
          from unique_col_rekey[of "fk rel" "st (mname md')" "r (refd rel)" "r' (refd rel)", OF _ k fresh] old True st'C show ?thesis by simp
        next
          case False
          have "unique_col f (map (\<lambda>c. if c (fk rel) = r (refd rel)
                    then c(fk rel := r' (refd rel)) else c) (st (mname md')))
                = unique_col f (st (mname md'))"
            by (rule unique_col_other_field) (use False in auto)
          with old st'C show ?thesis by simp
        qed
      qed
    next
      case False
      with t_other[OF ne] old show ?thesis by auto
    qed
  qed
  qed
qed

lemma delete_uniques:
  assumes wf: "wf_schema sch" and uh: "uniques_hold sch st"
    and u: "delete sch m (w, v) st = Inr st'"
  shows "uniques_hold sch st'"
proof (rule uniques_holdI)
  fix md' f assume md': "md' \<in> set (models sch)" and f: "f \<in> set (unique_fields md')"
  show "unique_col f (st' (mname md'))"
    using wf u
  proof (cases rule: delete_effect)
  case (1 md r)
  note t_m = 1(5) and t_child = 1(6) and t_other = 1(7)
  have old: "unique_col f (st (mname md'))" using uniques_holdD[OF uh md' f] .
  show ?thesis
  proof (cases "mname md' = m")
    case True
    with t_m old show ?thesis by (simp add: unique_col_filter)
  next
    case ne: False
    show ?thesis
    proof (cases "\<exists>rel \<in> set (relations sch). parent rel = m \<and> child rel = mname md'")
      case True
      then obtain rel where rel: "rel \<in> set (relations sch)" and par: "parent rel = m"
        and ch: "child rel = mname md'" by blast
      from t_child[OF rel par] ch consider
          "st' (mname md') = st (mname md')"
        | "st' (mname md') =
             map (\<lambda>c. if c (fk rel) = r (refd rel) then c(fk rel := VNull) else c)
               (st (mname md'))"
        by (auto split: if_splits)
      then show ?thesis
      proof cases
        case 1
        with old show ?thesis by simp
      next
        case 2
        show ?thesis
        proof (cases "f = fk rel")
          case True
          with old 2 show ?thesis by (simp add: unique_col_setnull)
        next
          case False
          have "unique_col f (map (\<lambda>c. if c (fk rel) = r (refd rel)
                    then c(fk rel := VNull) else c) (st (mname md')))
                = unique_col f (st (mname md'))"
            by (rule unique_col_other_field) (use False in auto)
          with old 2 show ?thesis by simp
        qed
      qed
    next
      case False
      with t_other[OF ne] old show ?thesis by auto
    qed
  qed
  qed
qed




lemma fk_ok_iff:
  "fk_ok st rel c = (c (fk rel) = VNull \<or> (\<exists>p \<in> set (st (parent rel)). p (refd rel) = c (fk rel)))"
  by (auto simp: fk_ok_set image_iff) metis

text \<open>
  The referenced column of a relation is not a foreign key of another one, so the
  referential actions of an update or a delete on model \<open>m\<close> leave it as it is in every
  other table.
\<close>

lemma update_parent_column:
  assumes wf: "wf_schema sch" and u: "update sch now m (w, v) d st = Inr st'"
    and rel0: "rel0 \<in> set (relations sch)" and ne: "parent rel0 \<noteq> m"
  shows "map (\<lambda>p. p (refd rel0)) (st' (parent rel0)) = map (\<lambda>p. p (refd rel0)) (st (parent rel0))"
  using wf u
proof (cases rule: update_effect)
  case (1 md r r')
  note t_child = 1(10) and t_other = 1(11)
  show ?thesis
  proof (cases "\<exists>rel \<in> set (relations sch). parent rel = m \<and> child rel = parent rel0")
    case True
    then obtain rel where rel: "rel \<in> set (relations sch)" and par: "parent rel = m"
      and ch: "child rel = parent rel0" by blast
    have ne_f: "refd rel0 \<noteq> fk rel" using wf_schemaD(5)[OF wf rel rel0 ch] by simp
    from t_child[OF rel par] show ?thesis
      unfolding ch using ne_f by auto
  next
    case False
    with t_other[OF ne] show ?thesis by auto
  qed
qed

lemma delete_parent_column:
  assumes wf: "wf_schema sch" and u: "delete sch m (w, v) st = Inr st'"
    and rel0: "rel0 \<in> set (relations sch)" and ne: "parent rel0 \<noteq> m"
  shows "map (\<lambda>p. p (refd rel0)) (st' (parent rel0)) = map (\<lambda>p. p (refd rel0)) (st (parent rel0))"
  using wf u
proof (cases rule: delete_effect)
  case (1 md r)
  note t_child = 1(6) and t_other = 1(7)
  show ?thesis
  proof (cases "\<exists>rel \<in> set (relations sch). parent rel = m \<and> child rel = parent rel0")
    case True
    then obtain rel where rel: "rel \<in> set (relations sch)" and par: "parent rel = m"
      and ch: "child rel = parent rel0" by blast
    have ne_f: "refd rel0 \<noteq> fk rel" using wf_schemaD(5)[OF wf rel rel0 ch] by simp
    from t_child[OF rel par] show ?thesis
      unfolding ch using ne_f by (auto split: if_splits)
  next
    case False
    with t_other[OF ne] show ?thesis by auto
  qed
qed

lemma update_refs:
  assumes wf: "wf_schema sch" and uh: "uniques_hold sch st" and rh: "refs_hold sch st"
    and u: "update sch now m (w, v) d st = Inr st'"
  shows "refs_hold sch st'"
proof (rule refs_holdI)
  fix rel0 c' assume rel0: "rel0 \<in> set (relations sch)" and c': "c' \<in> set (st' (child rel0))"
  show "fk_ok st' rel0 c'"
    using wf u
  proof (cases rule: update_effect)
    case (1 md r r')
    note fm = 1(1) and w = 1(2) and v = 1(3) and fr = 1(5) and fkc = 1(8)
      and t_m = 1(9) and t_child = 1(10) and t_other = 1(11)
    from find_model_Some[OF fm] have md: "md \<in> set (models sch)" and mn: "mname md = m"
      by simp_all
    from find_SomeD[OF fr] have r_in: "r \<in> set (st m)" and r_w: "r w = v" by simp_all
    have uw: "unique_col w (st m)" using uniques_holdD[OF uh md w] mn by simp
    have only_r: "x = r" if "x \<in> set (st m)" "x w = v" for x
      using unique_col_same[OF uw that(1) r_in] that(2) r_w v by simp
    have r'_in: "r' \<in> set (st' m)" using t_m r_in r_w by force
    have keep: "x \<in> set (st' m)" if "x \<in> set (st m)" "x w \<noteq> v" for x
      using t_m that by force
    show ?thesis
    proof (cases "parent rel0 = m")
      case True
      note tc = t_child[OF rel0 True]
      have still: "\<exists>p \<in> set (st' m). p (refd rel0) = c (fk rel0)"
        if c: "c \<in> set (st (child rel0))" and nn: "c (fk rel0) \<noteq> VNull"
          and nk: "c (fk rel0) = r (refd rel0) \<Longrightarrow> r' (refd rel0) = r (refd rel0)" for c
      proof -
        from refs_holdD[OF rh rel0 c] nn True obtain p where p: "p \<in> set (st m)"
          and pg: "p (refd rel0) = c (fk rel0)" by (auto simp: fk_ok_iff)
        show ?thesis
        proof (cases "p w = v")
          case True
          from only_r[OF p this] pg nk have "r' (refd rel0) = c (fk rel0)" by simp
          with r'_in show ?thesis by blast
        next
          case False
          from keep[OF p this] pg show ?thesis by blast
        qed
      qed
      show ?thesis
      proof (cases "r (refd rel0) = VNull \<or> r' (refd rel0) = r (refd rel0)")
        case same: True
        with tc c' have c: "c' \<in> set (st (child rel0))" by simp
        show ?thesis
        proof (cases "c' (fk rel0) = VNull")
          case True
          then show ?thesis by (simp add: fk_ok_iff)
        next
          case False
          from still[OF c False] same False True show ?thesis
            by (auto simp: fk_ok_iff)
        qed
      next
        case changed: False
        with tc c' obtain c where c: "c \<in> set (st (child rel0))"
          and c'_def: "c' = (if c (fk rel0) = r (refd rel0)
                             then c(fk rel0 := r' (refd rel0)) else c)"
          by auto
        show ?thesis
        proof (cases "c (fk rel0) = r (refd rel0)")
          case hit: True
          with c'_def have "c' (fk rel0) = r' (refd rel0)" by simp
          with r'_in True show ?thesis by (auto simp: fk_ok_iff)
        next
          case miss: False
          with c'_def have eq: "c' = c" by simp
          show ?thesis
          proof (cases "c (fk rel0) = VNull")
            case True
            with eq show ?thesis by (simp add: fk_ok_iff)
          next
            case False
            from still[OF c False] miss eq True show ?thesis
              by (auto simp: fk_ok_iff)
          qed
        qed
      qed
    next
      case pne: False
      note col = update_parent_column[OF wf u rel0 pne]
      have old_ok: "fk_ok st' rel0 c" if "fk_ok st rel0 c" for c
        using that col unfolding fk_ok_set by simp
      show ?thesis
      proof (cases "child rel0 = m")
        case True
        with c' t_m have "c' = r' \<or> (c' \<in> set (st m) \<and> c' w \<noteq> v)" by auto
        then show ?thesis
        proof
          assume eq: "c' = r'"
          from fkc rel0 True have "r' (fk rel0) = r (fk rel0) \<or> fk_ok st rel0 r'" by simp
          moreover have "fk_ok st rel0 r" using refs_holdD[OF rh rel0] r_in True by simp
          ultimately have "fk_ok st rel0 r'" by (auto simp: fk_ok_set)
          with eq old_ok show ?thesis by simp
        next
          assume "c' \<in> set (st m) \<and> c' w \<noteq> v"
          with refs_holdD[OF rh rel0] True have "fk_ok st rel0 c'" by simp
          then show ?thesis by (rule old_ok)
        qed
      next
        case cne: False
        have "\<forall>rel \<in> set (relations sch). parent rel = m \<longrightarrow> child rel \<noteq> child rel0"
        proof (intro ballI impI notI)
          fix rel assume rel: "rel \<in> set (relations sch)" and "parent rel = m"
            and "child rel = child rel0"
          with wf_schema_children(2)[OF wf rel rel0] pne show False by simp
        qed
        from t_other[OF cne this] c' have "c' \<in> set (st (child rel0))" by simp
        from refs_holdD[OF rh rel0 this] show ?thesis by (rule old_ok)
      qed
    qed
  qed
qed

lemma delete_refs:
  assumes wf: "wf_schema sch" and uh: "uniques_hold sch st" and rh: "refs_hold sch st"
    and u: "delete sch m (w, v) st = Inr st'"
  shows "refs_hold sch st'"
proof (rule refs_holdI)
  fix rel0 c' assume rel0: "rel0 \<in> set (relations sch)" and c': "c' \<in> set (st' (child rel0))"
  show "fk_ok st' rel0 c'"
    using wf u
  proof (cases rule: delete_effect)
    case (1 md r)
    note fm = 1(1) and w = 1(2) and v = 1(3) and fr = 1(4)
      and t_m = 1(5) and t_child = 1(6) and t_other = 1(7)
    from find_model_Some[OF fm] have md: "md \<in> set (models sch)" and mn: "mname md = m"
      by simp_all
    from find_SomeD[OF fr] have r_in: "r \<in> set (st m)" and r_w: "r w = v" by simp_all
    have uw: "unique_col w (st m)" using uniques_holdD[OF uh md w] mn by simp
    have only_r: "x = r" if "x \<in> set (st m)" "x w = v" for x
      using unique_col_same[OF uw that(1) r_in] that(2) r_w v by simp
    have keep: "x \<in> set (st' m)" if "x \<in> set (st m)" "x w \<noteq> v" for x
      using t_m that by simp
    show ?thesis
    proof (cases "parent rel0 = m")
      case True
      note tc = t_child[OF rel0 True]
      have still: "\<exists>p \<in> set (st' m). p (refd rel0) = c (fk rel0)"
        if c: "c \<in> set (st (child rel0))" and nn: "c (fk rel0) \<noteq> VNull"
          and nk: "c (fk rel0) \<noteq> r (refd rel0)" for c
      proof -
        from refs_holdD[OF rh rel0 c] nn True obtain p where p: "p \<in> set (st m)"
          and pg: "p (refd rel0) = c (fk rel0)" by (auto simp: fk_ok_iff)
        have "p w \<noteq> v"
        proof
          assume "p w = v"
          from only_r[OF p this] pg nk show False by simp
        qed
        from keep[OF p this] pg show ?thesis by blast
      qed
      from tc consider
          (same) "st' (child rel0) = st (child rel0)"
             "r (refd rel0) = VNull \<or> (\<forall>c \<in> set (st (child rel0)). c (fk rel0) \<noteq> r (refd rel0))"
        | (nulled) "st' (child rel0) =
             map (\<lambda>c. if c (fk rel0) = r (refd rel0) then c(fk rel0 := VNull) else c)
               (st (child rel0))"
        by (auto split: if_splits)
      then show ?thesis
      proof cases
        case same
        with c' have c: "c' \<in> set (st (child rel0))" by simp
        show ?thesis
        proof (cases "c' (fk rel0) = VNull")
          case True
          then show ?thesis by (simp add: fk_ok_iff)
        next
          case False
          with same(2) c have "c' (fk rel0) \<noteq> r (refd rel0)" by auto
          from still[OF c False this] True show ?thesis by (auto simp: fk_ok_iff)
        qed
      next
        case nulled
        with c' obtain c where c: "c \<in> set (st (child rel0))"
          and c'_def: "c' = (if c (fk rel0) = r (refd rel0) then c(fk rel0 := VNull) else c)"
          by auto
        show ?thesis
        proof (cases "c (fk rel0) = r (refd rel0) \<or> c (fk rel0) = VNull")
          case True
          with c'_def have "c' (fk rel0) = VNull" by auto
          then show ?thesis by (simp add: fk_ok_iff)
        next
          case False
          with c'_def have eq: "c' = c" by simp
          from False still[OF c] eq True show ?thesis by (auto simp: fk_ok_iff)
        qed
      qed
    next
      case pne: False
      note col = delete_parent_column[OF wf u rel0 pne]
      have old_ok: "fk_ok st' rel0 c" if "fk_ok st rel0 c" for c
        using that col unfolding fk_ok_set by simp
      show ?thesis
      proof (cases "child rel0 = m")
        case True
        with c' t_m have "c' \<in> set (st m)" by simp
        with refs_holdD[OF rh rel0] True have "fk_ok st rel0 c'" by simp
        then show ?thesis by (rule old_ok)
      next
        case cne: False
        have "\<forall>rel \<in> set (relations sch). parent rel = m \<longrightarrow> child rel \<noteq> child rel0"
        proof (intro ballI impI notI)
          fix rel assume rel: "rel \<in> set (relations sch)" and "parent rel = m"
            and "child rel = child rel0"
          with wf_schema_children(2)[OF wf rel rel0] pne show False by simp
        qed
        from t_other[OF cne this] c' have "c' \<in> set (st (child rel0))" by simp
        from refs_holdD[OF rh rel0 this] show ?thesis by (rule old_ok)
      qed
    qed
  qed
qed




definition required_fields :: "model \<Rightarrow> string list" where
  "required_fields md = map fname (filter (\<lambda>f. fmod f = Required) (scalar_fields md))"

definition required_hold :: "schema_decl \<Rightarrow> store \<Rightarrow> bool" where
  "required_hold sch st =
     list_all (\<lambda>md. list_all (\<lambda>f. list_all (\<lambda>r. r f \<noteq> VNull) (st (mname md)))
                       (required_fields md))
       (models sch)"

definition wf_required :: "schema_decl \<Rightarrow> bool" where
  "wf_required sch =
     (list_all (\<lambda>md. distinct (map fname (scalar_fields md)) \<and>
                      list_all (\<lambda>f. AtDefault (DLit VNull) \<notin> set (fattrs f)) (scalar_fields md))
        (models sch) \<and>
      list_all (\<lambda>rel.
          case find_model sch (child rel) of
            None \<Rightarrow> False
          | Some cm \<Rightarrow>
              (case find_model sch (parent rel) of
                 None \<Rightarrow> False
               | Some pm \<Rightarrow>
                   fk rel \<notin> set (required_fields cm) \<or>
                   (refd rel \<in> set (required_fields pm) \<and> on_delete rel \<noteq> SetNull)))
        (relations sch))"

lemma wf_required_schema: "wf_required schema"
  unfolding wf_required_def relations_schema
  by (simp add: schema_defs find_model_def required_fields_def scalar_fields_def)

lemma required_holdD:
  "required_hold sch st \<Longrightarrow> md \<in> set (models sch) \<Longrightarrow> k \<in> set (required_fields md) \<Longrightarrow>
   r \<in> set (st (mname md)) \<Longrightarrow> r k \<noteq> VNull"
  by (auto simp: required_hold_def list_all_iff)

lemma required_holdI:
  "(\<And>md k r. md \<in> set (models sch) \<Longrightarrow> k \<in> set (required_fields md) \<Longrightarrow>
      r \<in> set (st (mname md)) \<Longrightarrow> r k \<noteq> VNull) \<Longrightarrow> required_hold sch st"
  by (auto simp: required_hold_def list_all_iff)

lemma wf_requiredD:
  assumes "wf_required sch" "md \<in> set (models sch)"
  shows "distinct (map fname (scalar_fields md))"
    and "\<And>f. f \<in> set (scalar_fields md) \<Longrightarrow> AtDefault (DLit VNull) \<notin> set (fattrs f)"
  using assms unfolding wf_required_def by (auto simp: list_all_iff)

lemma wf_required_relD:
  assumes "wf_required sch" "rel \<in> set (relations sch)"
    "find_model sch (child rel) = Some cm" "find_model sch (parent rel) = Some pm"
    "fk rel \<in> set (required_fields cm)"
  shows "refd rel \<in> set (required_fields pm)" "on_delete rel \<noteq> SetNull"
  using assms unfolding wf_required_def by (auto simp: list_all_iff)

lemma build_row_field:
  "build_row now rows d fs = Some r \<Longrightarrow> distinct (map fname fs) \<Longrightarrow> f \<in> set fs \<Longrightarrow>
   initial_val now rows d f = Some (r (fname f))"
proof (induction fs arbitrary: r)
  case Nil
  then show ?case by simp
next
  case (Cons a fs)
  from Cons.prems(1) obtain v r0 where v: "initial_val now rows d a = Some v"
    and r0: "build_row now rows d fs = Some r0" and r: "r = r0(fname a := v)"
    by (auto split: option.splits)
  show ?case
  proof (cases "f = a")
    case True
    with v r show ?thesis by simp
  next
    case False
    with Cons.prems have f: "f \<in> set fs" and d: "distinct (map fname fs)"
      and ne: "fname f \<noteq> fname a" by (auto simp: image_iff)
    from Cons.IH[OF r0 d f] r ne show ?thesis by simp
  qed
qed

lemma build_row_other:
  "build_row now rows d fs = Some r \<Longrightarrow> k \<notin> fname ` set fs \<Longrightarrow> r k = VNull"
  by (induction fs arbitrary: r) (auto split: option.splits)

lemma default_of_nonnull:
  "default_of now used as = Some v \<Longrightarrow> AtDefault (DLit VNull) \<notin> set as \<Longrightarrow> v \<noteq> VNull"
  by (induction now used as rule: default_of.induct) auto

lemma scalar_ok_nonnull: "scalar_ok sch t v \<Longrightarrow> v \<noteq> VNull"
  by (cases t) auto

lemma find_distinct:
  "distinct (map h xs) \<Longrightarrow> x \<in> set xs \<Longrightarrow> find (\<lambda>y. h y = h x) xs = Some x"
  by (induction xs) (auto simp: image_iff)

lemma data_ok_nonnull:
  assumes dok: "data_ok sch md d" and dist: "distinct (map fname (scalar_fields md))"
    and f: "f \<in> set (scalar_fields md)" and req: "fmod f = Required"
    and m: "map_of d (fname f) = Some v"
  shows "v \<noteq> VNull"
proof -
  from map_of_SomeD[OF m] dok have
    "case find_field md (fname f) of None \<Rightarrow> False | Some f' \<Rightarrow> val_ok sch f' v"
    by (auto simp: data_ok_def list_all_iff)
  moreover have "find_field md (fname f) = Some f"
    unfolding find_field_def using find_distinct[OF dist f] .
  ultimately have "val_ok sch f v" by simp
  with req show ?thesis
    by (auto simp: val_ok_def dest: scalar_ok_nonnull split: field_type.splits)
qed

lemma required_fieldsD:
  "k \<in> set (required_fields md) \<Longrightarrow>
   \<exists>f \<in> set (scalar_fields md). fname f = k \<and> fmod f = Required"
  by (auto simp: required_fields_def)

lemma new_row_required:
  assumes wr: "wf_required sch" and md: "md \<in> set (models sch)"
    and dok: "data_ok sch md d"
    and b: "build_row now rows d (scalar_fields md) = Some r"
    and k: "k \<in> set (required_fields md)"
  shows "r k \<noteq> VNull"
proof -
  from required_fieldsD[OF k] obtain f where f: "f \<in> set (scalar_fields md)"
    and fk: "fname f = k" and req: "fmod f = Required" by blast
  note dist = wf_requiredD(1)[OF wr md]
  from build_row_field[OF b dist f] fk have iv: "initial_val now rows d f = Some (r k)" by simp
  show ?thesis
  proof (cases "map_of d (fname f)")
    case (Some v)
    with iv have "r k = v" by (simp add: initial_val_def)
    with data_ok_nonnull[OF dok dist f req Some] show ?thesis by simp
  next
    case None
    with iv req have "default_of now (map (\<lambda>r. r (fname f)) rows) (fattrs f) = Some (r k)"
      by (auto simp: initial_val_def split: option.splits)
    from default_of_nonnull[OF this wf_requiredD(2)[OF wr md f]] show ?thesis .
  qed
qed

lemma patched_required:
  assumes wr: "wf_required sch" and md: "md \<in> set (models sch)"
    and dok: "data_ok sch md d"
    and k: "k \<in> set (required_fields md)" and old: "r k \<noteq> VNull"
  shows "patched now md d r k \<noteq> VNull"
proof -
  from required_fieldsD[OF k] obtain f where f: "f \<in> set (scalar_fields md)"
    and fk: "fname f = k" and req: "fmod f = Required" by blast
  note dist = wf_requiredD(1)[OF wr md]
  show ?thesis
  proof (cases "d = []")
    case True
    with old show ?thesis by (simp add: patched_def)
  next
    case False
    show ?thesis
    proof (cases "map_of d k")
      case (Some v)
      with data_ok_nonnull[OF dok dist f req] fk False show ?thesis
        by (simp add: patched_def)
    next
      case None
      with old False show ?thesis by (simp add: patched_def)
    qed
  qed
qed

lemma create_required:
  assumes wf: "wf_schema sch" and wr: "wf_required sch" and rq: "required_hold sch st"
    and c: "create sch now m d st = Inr st'"
  shows "required_hold sch st'"
proof (rule required_holdI)
  fix md' k r assume md': "md' \<in> set (models sch)" and k: "k \<in> set (required_fields md')"
    and r: "r \<in> set (st' (mname md'))"
  from c show "r k \<noteq> VNull"
  proof (cases rule: create_Inr)
    case (1 md r0)
    note fm = 1(1) and dok = 1(2) and b = 1(3) and st' = 1(6)
    show ?thesis
    proof (cases "r \<in> set (st (mname md'))")
      case True
      from required_holdD[OF rq md' k True] show ?thesis .
    next
      case False
      with r st' have mn: "mname md' = m" and eq: "r = r0" by (auto split: if_splits)
      with find_model_unique[OF wf_schema_names[OF wf] md'] fm have "md' = md" by simp
      with new_row_required[OF wr md' _ _ k] dok b eq show ?thesis by simp
    qed
  qed
qed

lemma update_required:
  assumes wf: "wf_schema sch" and wr: "wf_required sch" and rq: "required_hold sch st"
    and u: "update sch now m (w, v) d st = Inr st'"
  shows "required_hold sch st'"
proof (rule required_holdI)
  fix md' k x assume md': "md' \<in> set (models sch)" and k: "k \<in> set (required_fields md')"
    and x: "x \<in> set (st' (mname md'))"
  show "x k \<noteq> VNull"
    using wf u
  proof (cases rule: update_effect)
    case (1 md r r')
    note fm = 1(1) and dok = 1(4) and fr = 1(5) and r' = 1(6)
      and t_m = 1(9) and t_child = 1(10) and t_other = 1(11)
    from find_model_Some[OF fm] have md: "md \<in> set (models sch)" and mn: "mname md = m"
      by simp_all
    from find_SomeD[OF fr] have r_in: "r \<in> set (st m)" by simp
    have r'_ok: "r' k' \<noteq> VNull" if "k' \<in> set (required_fields md)" for k'
      using patched_required[OF wr md dok that] required_holdD[OF rq md that] r_in mn r'
      by simp
    show ?thesis
    proof (cases "mname md' = m")
      case True
      with find_model_unique[OF wf_schema_names[OF wf] md'] fm have same: "md' = md" by simp
      from x True t_m have "x = r' \<or> x \<in> set (st m)" by auto
      then show ?thesis
      proof
        assume "x = r'"
        with r'_ok k same show ?thesis by simp
      next
        assume "x \<in> set (st m)"
        with required_holdD[OF rq md' k] True show ?thesis by simp
      qed
    next
      case ne: False
      show ?thesis
      proof (cases "\<exists>rel \<in> set (relations sch). parent rel = m \<and> child rel = mname md'")
        case True
        then obtain rel where rel: "rel \<in> set (relations sch)" and par: "parent rel = m"
          and ch: "child rel = mname md'" by blast
        from t_child[OF rel par] x ch obtain c where c: "c \<in> set (st (mname md'))"
          and xc: "x = c \<or> x = c(fk rel := r' (refd rel))"
          by (auto split: if_splits)
        from required_holdD[OF rq md' k c] have ck: "c k \<noteq> VNull" .
        show ?thesis
        proof (cases "x = c \<or> k \<noteq> fk rel")
          case True
          with xc ck show ?thesis by auto
        next
          case False
          with xc have xk: "x k = r' (refd rel)" and kf: "k = fk rel" by auto
          have "find_model sch (child rel) = Some md'"
            using find_model_unique[OF wf_schema_names[OF wf] md'] ch by simp
          from wf_required_relD(1)[OF wr rel this] fm par k kf
          have "refd rel \<in> set (required_fields md)" by simp
          from r'_ok[OF this] xk show ?thesis by simp
        qed
      next
        case False
        with t_other[OF ne] x have "x \<in> set (st (mname md'))" by auto
        from required_holdD[OF rq md' k this] show ?thesis .
      qed
    qed
  qed
qed

lemma delete_required:
  assumes wf: "wf_schema sch" and wr: "wf_required sch" and rq: "required_hold sch st"
    and u: "delete sch m (w, v) st = Inr st'"
  shows "required_hold sch st'"
proof (rule required_holdI)
  fix md' k x assume md': "md' \<in> set (models sch)" and k: "k \<in> set (required_fields md')"
    and x: "x \<in> set (st' (mname md'))"
  show "x k \<noteq> VNull"
    using wf u
  proof (cases rule: delete_effect)
    case (1 md r)
    note fm = 1(1) and t_m = 1(5) and t_child = 1(6) and t_other = 1(7)
    show ?thesis
    proof (cases "mname md' = m")
      case True
      with x t_m have "x \<in> set (st (mname md'))" by simp
      from required_holdD[OF rq md' k this] show ?thesis .
    next
      case ne: False
      show ?thesis
      proof (cases "\<exists>rel \<in> set (relations sch). parent rel = m \<and> child rel = mname md'")
        case True
        then obtain rel where rel: "rel \<in> set (relations sch)" and par: "parent rel = m"
          and ch: "child rel = mname md'" by blast
        have fc: "find_model sch (child rel) = Some md'"
          using find_model_unique[OF wf_schema_names[OF wf] md'] ch by simp
        show ?thesis
        proof (cases "st' (mname md') = st (mname md')")
          case True
          with x required_holdD[OF rq md' k] show ?thesis by simp
        next
          case False
          with t_child[OF rel par] ch have sn: "on_delete rel = SetNull"
            and tbl: "st' (mname md') =
                  map (\<lambda>c. if c (fk rel) = r (refd rel) then c(fk rel := VNull) else c)
                    (st (mname md'))"
            using wf_schemaD(3)[OF wf rel] by (auto split: if_splits)
          from tbl x obtain c where c: "c \<in> set (st (mname md'))"
            and xc: "x = c \<or> x = c(fk rel := VNull)" by auto
          have "k \<noteq> fk rel"
          proof
            assume "k = fk rel"
            with wf_required_relD(2)[OF wr rel fc] fm par k sn show False by simp
          qed
          with xc required_holdD[OF rq md' k c] show ?thesis by auto
        qed
      next
        case False
        with t_other[OF ne] x have "x \<in> set (st (mname md'))" by auto
        from required_holdD[OF rq md' k this] show ?thesis .
      qed
    qed
  qed
qed

text \<open>Every state of the store satisfies the three invariants.\<close>

lemma empty_invariants:
  "uniques_hold sch empty_store" "refs_hold sch empty_store" "required_hold sch empty_store"
  by (simp_all add: uniques_hold_def refs_hold_def required_hold_def empty_store_def
        list_all_iff)

lemma run_invariants:
  assumes wf: "wf_schema sch" and wr: "wf_required sch"
    and inv: "uniques_hold sch st \<and> refs_hold sch st \<and> required_hold sch st"
    and r: "run sch now c st = Inr st'"
  shows "uniques_hold sch st' \<and> refs_hold sch st' \<and> required_hold sch st'"
proof -
  from inv have uh: "uniques_hold sch st" and rh: "refs_hold sch st"
    and rq: "required_hold sch st" by simp_all
  show ?thesis
  proof (cases c)
    case (Create m d)
    with r have c: "create sch now m d st = Inr st'" by simp
    from create_uniques[OF wf_schema_names[OF wf] uh c] create_refs[OF rh c]
      create_required[OF wf wr rq c]
    show ?thesis by simp
  next
    case (Update m wv d)
    obtain w v where "wv = (w, v)" by (cases wv)
    with Update r have u: "update sch now m (w, v) d st = Inr st'" by simp
    from update_uniques[OF wf uh rh u] update_refs[OF wf uh rh u]
      update_required[OF wf wr rq u]
    show ?thesis by simp
  next
    case (Delete m wv)
    obtain w v where "wv = (w, v)" by (cases wv)
    with Delete r have u: "delete sch m (w, v) st = Inr st'" by simp
    from delete_uniques[OF wf uh u] delete_refs[OF wf uh rh u]
      delete_required[OF wf wr rq u]
    show ?thesis by simp
  qed
qed

lemma reachable_invariants:
  "reachable st \<Longrightarrow>
   uniques_hold schema st \<and> refs_hold schema st \<and> required_hold schema st"
proof (induction rule: reachable.induct)
  case init
  show ?case using empty_invariants by simp
next
  case (step st now c st')
  from run_invariants[OF wf_schema_schema wf_required_schema step.IH step.hyps(2)]
  show ?case .
qed





definition exec :: "schema_decl \<Rightarrow> nat \<Rightarrow> command \<Rightarrow> store \<Rightarrow> error option \<times> store" where
  "exec sch now c st = (case run sch now c st of Inl e \<Rightarrow> (Some e, st) | Inr st' \<Rightarrow> (None, st'))"

definition well_formed_create :: "schema_decl \<Rightarrow> nat \<Rightarrow> string \<Rightarrow> data \<Rightarrow> store \<Rightarrow> bool" where
  "well_formed_create sch now m d st =
     (case find_model sch m of
        None \<Rightarrow> False
      | Some md \<Rightarrow> data_ok sch md d \<and> build_row now (st m) d (scalar_fields md) \<noteq> None)"

definition named_unique_columns :: "(string \<times> string) list" where
  "named_unique_columns =
     [ (''User'', ''clerkUserId''), (''User'', ''email''), (''IndustryInsight'', ''industry''),
       (''Payment'', ''razorpayId''), (''FeatureCost'', ''featureName'') ]"

lemma reachable_exec: "reachable st \<Longrightarrow> reachable (snd (exec schema now c st))"
  by (auto simp: exec_def split: sum.splits intro: reachable.step)

lemma models_schema_names:
  "map mname (models schema) =
     [''User'', ''Assessment'', ''Resume'', ''CoverLetter'', ''IndustryInsight'',
      ''TokenTransaction'', ''Payment'', ''FeatureCost'']"
  by (simp add: schema_defs)

lemma find_model_schema:
  "find_model schema ''User'' = Some User_model"
  "find_model schema ''Assessment'' = Some Assessment_model"
  "find_model schema ''Resume'' = Some Resume_model"
  "find_model schema ''CoverLetter'' = Some CoverLetter_model"
  "find_model schema ''IndustryInsight'' = Some IndustryInsight_model"
  "find_model schema ''TokenTransaction'' = Some TokenTransaction_model"
  "find_model schema ''Payment'' = Some Payment_model"
  "find_model schema ''FeatureCost'' = Some FeatureCost_model"
  by (simp_all add: find_model_def schema_defs)

lemma unique_fields_schema:
  "unique_fields User_model = [''id'', ''clerkUserId'', ''email'']"
  "unique_fields Assessment_model = [''id'']"
  "unique_fields Resume_model = [''id'', ''userId'']"
  "unique_fields CoverLetter_model = [''id'']"
  "unique_fields IndustryInsight_model = [''id'', ''industry'']"
  "unique_fields TokenTransaction_model = [''id'']"
  "unique_fields Payment_model = [''id'', ''razorpayId'']"
  "unique_fields FeatureCost_model = [''id'', ''featureName'']"
  by (simp_all add: unique_fields_def scalar_fields_def model_defs)

lemma required_fields_schema:
  "required_fields User_model = [''id'', ''clerkUserId'', ''email'', ''tokens'', ''createdAt'', ''updatedAt'']"
  "required_fields Assessment_model =
     [''id'', ''userId'', ''quizScore'', ''category'', ''improvementTip'', ''createdAt'', ''updatedAt'']"
  "required_fields Resume_model =
     [''id'', ''userId'', ''content'', ''atsScore'', ''feedback'', ''createdAt'', ''updatedAt'']"
  "required_fields CoverLetter_model =
     [''id'', ''userId'', ''content'', ''companyName'', ''jobTitle'', ''createdAt'', ''updatedAt'']"
  "required_fields IndustryInsight_model =
     [''id'', ''industry'', ''growthRate'', ''demandLevel'', ''marketOutlook'', ''lastUpdated'', ''nextUpdate'']"
  "required_fields TokenTransaction_model =
     [''id'', ''userId'', ''amount'', ''description'', ''createdAt'']"
  "required_fields Payment_model =
     [''id'', ''userId'', ''amount'', ''currency'', ''razorpayId'', ''status'', ''tokensAdded'',
      ''createdAt'', ''updatedAt'']"
  "required_fields FeatureCost_model = [''id'', ''featureName'', ''tokenCost'']"
  by (simp_all add: required_fields_def scalar_fields_def model_defs)

text \<open>
  In a reachable state a column that is both unique and required holds pairwise
  different values.
\<close>

lemma distinct_nonnull:
  "unique_col f rows \<Longrightarrow> \<forall>r \<in> set rows. r f \<noteq> VNull \<Longrightarrow> distinct (map (\<lambda>r. r f) rows)"
  by (induction rows) (auto simp: unique_col_Cons image_iff)

lemma reachable_distinct:
  assumes r: "reachable st" and md: "md \<in> set (models schema)"
    and u: "f \<in> set (unique_fields md)" and q: "f \<in> set (required_fields md)"
  shows "distinct (map (\<lambda>r. r f) (st (mname md)))"
proof -
  from reachable_invariants[OF r] have uh: "uniques_hold schema st"
    and rq: "required_hold schema st" by simp_all
  from required_holdD[OF rq md q] have "\<forall>r \<in> set (st (mname md)). r f \<noteq> VNull" by blast
  from distinct_nonnull[OF uniques_holdD[OF uh md u] this] show ?thesis .
qed

lemma models_schema_mem:
  "User_model \<in> set (models schema)" "Assessment_model \<in> set (models schema)"
  "Resume_model \<in> set (models schema)" "CoverLetter_model \<in> set (models schema)"
  "IndustryInsight_model \<in> set (models schema)" "TokenTransaction_model \<in> set (models schema)"
  "Payment_model \<in> set (models schema)" "FeatureCost_model \<in> set (models schema)"
  by (simp_all add: schema_def)

lemma mname_schema:
  "mname User_model = ''User''" "mname Assessment_model = ''Assessment''"
  "mname Resume_model = ''Resume''" "mname CoverLetter_model = ''CoverLetter''"
  "mname IndustryInsight_model = ''IndustryInsight''"
  "mname TokenTransaction_model = ''TokenTransaction''"
  "mname Payment_model = ''Payment''" "mname FeatureCost_model = ''FeatureCost''"
  by (simp_all add: model_defs)

lemmas schema_facts =
  models_schema_mem mname_schema find_model_schema unique_fields_schema required_fields_schema

lemma create_conflict:
  assumes fm: "find_model sch m = Some md" and dok: "data_ok sch md d"
    and b: "build_row now (st m) d (scalar_fields md) = Some r"
    and f: "f \<in> set (unique_fields md)" and nn: "r f \<noteq> VNull"
    and dup: "r f \<in> set (map (\<lambda>x. x f) (st m))"
  shows "create sch now m d st = Inl ConflictError"
proof -
  from f nn dup have "conflicts md (st m) r"
    unfolding conflicts_set by blast
  with fm dok b show ?thesis by (simp add: create_def)
qed

lemma create_duplicate_fails:
  assumes fm: "find_model sch m = Some md"
    and dist: "distinct (map fname (scalar_fields md))"
    and f: "f \<in> set (unique_fields md)"
    and d: "map_of d f = Some v" and dup: "v \<in> set (map (\<lambda>x. x f) (st m))"
    and nn: "v \<noteq> VNull"
  shows "\<exists>e. create sch now m d st = Inl e"
    and "well_formed_create sch now m d st \<Longrightarrow> create sch now m d st = Inl ConflictError"
proof -
  from f obtain fd where fd: "fd \<in> set (scalar_fields md)" and fn: "fname fd = f"
    by (auto simp: unique_fields_def)
  have conflict: "create sch now m d st = Inl ConflictError"
    if dok: "data_ok sch md d" and b: "build_row now (st m) d (scalar_fields md) = Some r" for r
  proof -
    from build_row_field[OF b dist fd] fn d have "r f = v" by (simp add: initial_val_def)
    with create_conflict[of sch m md d now st r f, OF fm dok b f] nn dup show ?thesis by simp
  qed
  show "\<exists>e. create sch now m d st = Inl e"
  proof (cases "data_ok sch md d")
    case False
    with fm show ?thesis by (simp add: create_def)
  next
    case True
    show ?thesis
    proof (cases "build_row now (st m) d (scalar_fields md)")
      case None
      with fm True show ?thesis by (simp add: create_def)
    next
      case (Some r)
      from conflict[OF True Some] show ?thesis by simp
    qed
  qed
  assume "well_formed_create sch now m d st"
  with fm obtain r where "data_ok sch md d" "build_row now (st m) d (scalar_fields md) = Some r"
    by (auto simp: well_formed_create_def)
  then show "create sch now m d st = Inl ConflictError" by (rule conflict)
qed




lemma named_unique_columnsD:
  assumes "(m, f) \<in> set named_unique_columns"
  shows "\<exists>md. md \<in> set (models schema) \<and> mname md = m \<and> find_model schema m = Some md \<and>
    f \<in> set (unique_fields md) \<and> f \<in> set (required_fields md)"
proof -
  from assms have
    "(m = ''User'' \<and> f = ''clerkUserId'') \<or> (m = ''User'' \<and> f = ''email'')
    \<or> (m = ''IndustryInsight'' \<and> f = ''industry'') \<or> (m = ''Payment'' \<and> f = ''razorpayId'')
    \<or> (m = ''FeatureCost'' \<and> f = ''featureName'')"
    by (simp add: named_unique_columns_def)
  then show ?thesis
  proof (elim disjE conjE)
    assume "m = ''User''" "f = ''clerkUserId''"
    then show ?thesis by (intro exI[of _ User_model]) (simp add: schema_facts)
  next
    assume "m = ''User''" "f = ''email''"
    then show ?thesis by (intro exI[of _ User_model]) (simp add: schema_facts)
  next
    assume "m = ''IndustryInsight''" "f = ''industry''"
    then show ?thesis by (intro exI[of _ IndustryInsight_model]) (simp add: schema_facts)
  next
    assume "m = ''Payment''" "f = ''razorpayId''"
    then show ?thesis by (intro exI[of _ Payment_model]) (simp add: schema_facts)
  next
    assume "m = ''FeatureCost''" "f = ''featureName''"
    then show ?thesis by (intro exI[of _ FeatureCost_model]) (simp add: schema_facts)
  qed
qed



text \<open>
  C3. In every reachable state each of the five columns named by the claim (the
  external-auth id and the email of a User, the industry of an IndustryInsight, the
  gateway id of a Payment, the feature name of a FeatureCost) holds pairwise different
  values. A create whose data carry a value that the column already holds fails and
  leaves the store as it was; when the data pass validation, the error is
  \<open>ConflictError\<close>.
\<close>

theorem unique_columns_enforced:
  assumes "reachable st" and "(m, f) \<in> set named_unique_columns"
  shows "distinct (map (\<lambda>r. r f) (st m)) \<and>
         (\<forall>now d v. map_of d f = Some v \<and> v \<in> set (map (\<lambda>r. r f) (st m)) \<longrightarrow>
            (\<exists>e. exec schema now (Create m d) st = (Some e, st)) \<and>
            (well_formed_create schema now m d st \<longrightarrow>
               exec schema now (Create m d) st = (Some ConflictError, st)))"
proof -
  from named_unique_columnsD[OF assms(2)] obtain md where md: "md \<in> set (models schema)"
    and mn: "mname md = m" and fm: "find_model schema m = Some md"
    and u: "f \<in> set (unique_fields md)" and q: "f \<in> set (required_fields md)"
    by blast
  from reachable_distinct[OF assms(1) md u q] mn
  have dist: "distinct (map (\<lambda>r. r f) (st m))" by simp
  from reachable_invariants[OF assms(1)] have rq: "required_hold schema st" by simp
  have part2: "(\<exists>e. exec schema now (Create m d) st = (Some e, st)) \<and>
            (well_formed_create schema now m d st \<longrightarrow>
               exec schema now (Create m d) st = (Some ConflictError, st))"
    if d: "map_of d f = Some v" and dup: "v \<in> set (map (\<lambda>r. r f) (st m))" for now d v
  proof -
    from dup required_holdD[OF rq md q] mn have nn: "v \<noteq> VNull" by auto
    note cd = create_duplicate_fails[of schema m md f d v st,
        OF fm wf_requiredD(1)[OF wf_required_schema md] u d dup nn]
    from cd(1)[of now] cd(2)[of now] show ?thesis
      by (auto simp: exec_def)
  qed
  from dist part2 show ?thesis by blast
qed



definition demo_user :: "string \<Rightarrow> string \<Rightarrow> data" where
  "demo_user c e = [(''clerkUserId'', VStr c), (''email'', VStr e)]"

lemmas eval_defs =
  exec_def create_def update_def delete_def find_model_def data_ok_def find_field_def
  scalar_fields_def val_ok_def initial_val_def conflicts_def unique_fields_def relations_def
  model_relations_def required_field_def fk_ok_def empty_store_def patched_def
  is_updated_at_def fresh_id_def fk_default_def well_formed_create_def named_unique_columns_def

theorem unique_columns_enforced_witness:
  "distinct (map (\<lambda>r. r ''email'')
      (snd (exec schema 1 (Create ''User'' (demo_user ''clerk_1'' ''a@x.org'')) empty_store) ''User'')) \<and>
   exec schema 2 (Create ''User'' (demo_user ''clerk_2'' ''a@x.org''))
      (snd (exec schema 1 (Create ''User'' (demo_user ''clerk_1'' ''a@x.org'')) empty_store))
   = (Some ConflictError,
      snd (exec schema 1 (Create ''User'' (demo_user ''clerk_1'' ''a@x.org'')) empty_store))"
proof -
  let ?st = "snd (exec schema 1 (Create ''User'' (demo_user ''clerk_1'' ''a@x.org'')) empty_store)"
  have r: "reachable ?st" by (rule reachable_exec[OF reachable.init])
  have n: "(''User'', ''email'') \<in> set named_unique_columns"
    by (simp add: named_unique_columns_def)
  have h1: "map_of (demo_user ''clerk_2'' ''a@x.org'') ''email'' = Some (VStr ''a@x.org'')"
    by (simp add: demo_user_def)
  have h2: "VStr ''a@x.org'' \<in> set (map (\<lambda>r. r ''email'') (?st ''User''))"
    by (simp add: eval_defs schema_defs demo_user_def)
  have h3: "well_formed_create schema 2 ''User'' (demo_user ''clerk_2'' ''a@x.org'') ?st"
    by (simp add: eval_defs schema_defs demo_user_def)
  from unique_columns_enforced[OF r n] have
    "distinct (map (\<lambda>r. r ''email'') (?st ''User''))"
    and "\<And>now d v. map_of d ''email'' = Some v \<Longrightarrow> v \<in> set (map (\<lambda>r. r ''email'') (?st ''User'')) \<Longrightarrow>
       well_formed_create schema now ''User'' d ?st \<Longrightarrow>
               exec schema now (Create ''User'' d) ?st = (Some ConflictError, ?st)"
    by blast+
  from this(1) this(2)[OF h1 h2 h3] show ?thesis by (rule conjI)
qed




definition resume_data :: "string \<Rightarrow> string \<Rightarrow> real \<Rightarrow> string \<Rightarrow> data" where
  "resume_data u c a fb =
     [(''userId'', VStr u), (''content'', VStr c), (''atsScore'', VFloat a), (''feedback'', VStr fb)]"

lemma create_success:
  assumes "find_model sch m = Some md" "data_ok sch md d"
    "build_row now (st m) d (scalar_fields md) = Some r"
    "\<not> conflicts md (st m) r"
    "list_all (\<lambda>rel. fk_ok st rel r) (filter (\<lambda>rel. child rel = m) (relations sch))"
  shows "create sch now m d st = Inr (st(m := st m @ [r]))"
  using assms by (simp add: create_def)

lemma distinct_count:
  "distinct (map h xs) \<Longrightarrow> length (filter (\<lambda>x. h x = v) xs) \<le> Suc 0"
  by (induction xs) (auto simp: image_iff filter_empty_conv)

lemma create_resume_ok:
  assumes u: "VStr u \<in> set (map (\<lambda>r. r ''id'') (st ''User''))"
    and n: "VStr u \<notin> set (map (\<lambda>r. r ''userId'') (st ''Resume''))"
  shows "\<exists>r. create schema now ''Resume'' (resume_data u c a fb) st
             = Inr (st(''Resume'' := st ''Resume'' @ [r])) \<and> r ''userId'' = VStr u"
proof -
  let ?d = "resume_data u c a fb"
  let ?rows = "st ''Resume''"
  have dok: "data_ok schema Resume_model ?d"
    by (simp add: data_ok_def resume_data_def find_field_def scalar_fields_def
          Resume_model_def val_ok_def)
  obtain r where b: "build_row now ?rows ?d (scalar_fields Resume_model) = Some r"
    by (simp add: resume_data_def scalar_fields_def Resume_model_def initial_val_def)
  from b have rid: "r ''id'' = VStr (fresh_id (map (\<lambda>r. r ''id'') ?rows))"
    and ruid: "r ''userId'' = VStr u"
    by (auto simp: resume_data_def scalar_fields_def Resume_model_def initial_val_def)
  have nc: "\<not> conflicts Resume_model ?rows r"
    using n fresh_id_fresh[of "map (\<lambda>r. r ''id'') ?rows"]
    by (simp add: conflicts_set unique_fields_schema rid ruid)
  have fk: "list_all (\<lambda>rel. fk_ok st rel r)
              (filter (\<lambda>rel. child rel = ''Resume'') (relations schema))"
    using u by (simp add: relations_schema fk_ok_set ruid)
  from create_success[OF find_model_schema(3) dok b nc fk] ruid show ?thesis by blast
qed

text \<open>
  One Resume per User. In every reachable state no user id is the \<open>userId\<close> of two
  Resume rows. A
  create of a Resume whose \<open>userId\<close> some Resume already carries fails and leaves the
  store as it was (with \<open>ConflictError\<close> when the data pass validation), while a create
  for an existing User who has no Resume succeeds and appends that User's Resume.
\<close>

theorem one_resume_per_user:
  assumes "reachable st"
  shows "(\<forall>uid. length (filter (\<lambda>r. r ''userId'' = uid) (st ''Resume'')) \<le> 1) \<and>
         (\<forall>now d uid. map_of d ''userId'' = Some uid \<and>
              uid \<in> set (map (\<lambda>r. r ''userId'') (st ''Resume'')) \<longrightarrow>
            (\<exists>e. exec schema now (Create ''Resume'' d) st = (Some e, st)) \<and>
            (well_formed_create schema now ''Resume'' d st \<longrightarrow>
               exec schema now (Create ''Resume'' d) st = (Some ConflictError, st))) \<and>
         (\<forall>now u c a fb. VStr u \<in> set (map (\<lambda>r. r ''id'') (st ''User'')) \<and>
              VStr u \<notin> set (map (\<lambda>r. r ''userId'') (st ''Resume'')) \<longrightarrow>
            (\<exists>r. exec schema now (Create ''Resume'' (resume_data u c a fb)) st
                   = (None, st(''Resume'' := st ''Resume'' @ [r])) \<and>
                 r ''userId'' = VStr u))"
proof -
  have md: "Resume_model \<in> set (models schema)" by (rule models_schema_mem)
  have u: "''userId'' \<in> set (unique_fields Resume_model)"
    and q: "''userId'' \<in> set (required_fields Resume_model)"
    by (simp_all add: schema_facts)
  from reachable_distinct[OF assms md u q]
  have dist: "distinct (map (\<lambda>r. r ''userId'') (st ''Resume''))" by (simp add: mname_schema)
  from reachable_invariants[OF assms] have rq: "required_hold schema st" by simp
  have p1: "length (filter (\<lambda>r. r ''userId'' = uid) (st ''Resume'')) \<le> 1" for uid
    using distinct_count[OF dist, of uid] by simp
  have p2: "(\<exists>e. exec schema now (Create ''Resume'' d) st = (Some e, st)) \<and>
            (well_formed_create schema now ''Resume'' d st \<longrightarrow>
               exec schema now (Create ''Resume'' d) st = (Some ConflictError, st))"
    if d: "map_of d ''userId'' = Some uid"
      and dup: "uid \<in> set (map (\<lambda>r. r ''userId'') (st ''Resume''))" for now d uid
  proof -
    from dup required_holdD[OF rq md q] have nn: "uid \<noteq> VNull"
      by (auto simp: mname_schema)
    note cd = create_duplicate_fails[of schema "''Resume''" Resume_model "''userId''" d uid st,
        OF find_model_schema(3) wf_requiredD(1)[OF wf_required_schema md] u d dup nn]
    from cd(1)[of now] cd(2)[of now] show ?thesis
      by (auto simp: exec_def)
  qed
  have p3: "\<exists>r. exec schema now (Create ''Resume'' (resume_data u c a fb)) st
                   = (None, st(''Resume'' := st ''Resume'' @ [r])) \<and> r ''userId'' = VStr u"
    if "VStr u \<in> set (map (\<lambda>r. r ''id'') (st ''User''))"
      "VStr u \<notin> set (map (\<lambda>r. r ''userId'') (st ''Resume''))" for now u c a fb
    using create_resume_ok[OF that, of now c a fb] by (auto simp: exec_def)
  from p1 p2 p3 show ?thesis by blast
qed



definition demo_store :: store where
  "demo_store =
     snd (exec schema 3 (Create ''Resume'' (resume_data ''c'' ''text'' 71 ''fine''))
       (snd (exec schema 2 (Create ''User'' (demo_user ''clerk_2'' ''b@x.org''))
         (snd (exec schema 1 (Create ''User'' (demo_user ''clerk_1'' ''a@x.org'')) empty_store)))))"

lemma reachable_demo_store: "reachable demo_store"
  unfolding demo_store_def
  by (intro reachable_exec reachable.init)

lemma demo_store_tables:
  "map (\<lambda>r. r ''id'') (demo_store ''User'') = [VStr ''c'', VStr ''cc'']"
  "map (\<lambda>r. r ''userId'') (demo_store ''Resume'') = [VStr ''c'']"
  "map (\<lambda>r. r ''id'') (demo_store ''Resume'') = [VStr ''c'']"
  by (simp_all add: demo_store_def eval_defs schema_defs demo_user_def resume_data_def)

theorem one_resume_per_user_witness:
  "length (filter (\<lambda>r. r ''userId'' = VStr ''c'') (demo_store ''Resume'')) \<le> 1 \<and>
   exec schema 4 (Create ''Resume'' (resume_data ''c'' ''again'' 50 ''no'')) demo_store
     = (Some ConflictError, demo_store) \<and>
   (\<exists>r. exec schema 5 (Create ''Resume'' (resume_data ''cc'' ''other'' 60 ''ok'')) demo_store
          = (None, demo_store(''Resume'' := demo_store ''Resume'' @ [r])) \<and>
        r ''userId'' = VStr ''cc'')"
proof -
  have h1: "map_of (resume_data ''c'' ''again'' 50 ''no'') ''userId'' = Some (VStr ''c'')"
    by (simp add: resume_data_def)
  have h2: "VStr ''c'' \<in> set (map (\<lambda>r. r ''userId'') (demo_store ''Resume''))"
    by (simp add: demo_store_tables)
  have h3: "well_formed_create schema 4 ''Resume'' (resume_data ''c'' ''again'' 50 ''no'') demo_store"
    by (simp add: well_formed_create_def find_model_schema data_ok_def resume_data_def
          find_field_def scalar_fields_def Resume_model_def val_ok_def initial_val_def)
  have h4: "VStr ''cc'' \<in> set (map (\<lambda>r. r ''id'') (demo_store ''User''))"
    by (simp add: demo_store_tables)
  have h5: "VStr ''cc'' \<notin> set (map (\<lambda>r. r ''userId'') (demo_store ''Resume''))"
    by (simp add: demo_store_tables)
  note main = one_resume_per_user[OF reachable_demo_store]
  from main have a: "length (filter (\<lambda>r. r ''userId'' = VStr ''c'') (demo_store ''Resume'')) \<le> 1"
    by blast
  from main h1 h2 h3 have b:
    "exec schema 4 (Create ''Resume'' (resume_data ''c'' ''again'' 50 ''no'')) demo_store
     = (Some ConflictError, demo_store)"
    by blast
  from main h4 h5 have c:
    "\<exists>r. exec schema 5 (Create ''Resume'' (resume_data ''cc'' ''other'' 60 ''ok'')) demo_store
          = (None, demo_store(''Resume'' := demo_store ''Resume'' @ [r])) \<and>
        r ''userId'' = VStr ''cc''"
    by blast
  from a b c show ?thesis by blast
qed




text \<open>The referential actions that the \<^verbatim>\<open>@relation\<close> attributes of the file write out.\<close>

fun declared_of :: "attribute \<Rightarrow> ref_action list" where
  "declared_of (AtRelation fs gs d u) =
     (case d of None \<Rightarrow> [] | Some a \<Rightarrow> [a]) @ (case u of None \<Rightarrow> [] | Some a \<Rightarrow> [a])"
| "declared_of a = []"

definition declared_actions :: "schema_decl \<Rightarrow> ref_action list" where
  "declared_actions sch =
     concat (map (\<lambda>md. concat (map (\<lambda>f. concat (map declared_of (fattrs f))) (mfields md)))
       (models sch))"

text \<open>The models whose rows belong to a User.\<close>

definition user_children :: "string list" where
  "user_children = [''Assessment'', ''Resume'', ''CoverLetter'', ''TokenTransaction'', ''Payment'']"

lemma user_childrenD:
  assumes "ch \<in> set user_children"
  shows "\<exists>md. md \<in> set (models schema) \<and> mname md = ch \<and>
           ''userId'' \<in> set (required_fields md) \<and>
           Rel ch ''userId'' ''User'' ''id'' Restrict Cascade \<in> set (relations schema)"
proof -
  from assms have "ch = ''Assessment'' \<or> ch = ''Resume'' \<or> ch = ''CoverLetter'' \<or>
      ch = ''TokenTransaction'' \<or> ch = ''Payment''"
    by (simp add: user_children_def)
  then show ?thesis
  proof (elim disjE)
    assume "ch = ''Assessment''"
    then show ?thesis
      by (intro exI[of _ Assessment_model]) (simp add: schema_facts relations_schema)
  next
    assume "ch = ''Resume''"
    then show ?thesis
      by (intro exI[of _ Resume_model]) (simp add: schema_facts relations_schema)
  next
    assume "ch = ''CoverLetter''"
    then show ?thesis
      by (intro exI[of _ CoverLetter_model]) (simp add: schema_facts relations_schema)
  next
    assume "ch = ''TokenTransaction''"
    then show ?thesis
      by (intro exI[of _ TokenTransaction_model]) (simp add: schema_facts relations_schema)
  next
    assume "ch = ''Payment''"
    then show ?thesis
      by (intro exI[of _ Payment_model]) (simp add: schema_facts relations_schema)
  qed
qed

lemma propagate_restrict_fails:
  assumes "\<forall>rel \<in> set rels. on_delete rel = Restrict"
    and "rel \<in> set rels" and "r (refd rel) \<noteq> VNull"
    and "c \<in> set (st (child rel))" and "c (fk rel) = r (refd rel)"
  shows "propagate sch rels r None st = Inl RestrictError"
  using assms
proof (induction rels arbitrary: st)
  case Nil
  then show ?case by simp
next
  case (Cons a rels)
  have restrict: "on_delete a = Restrict" using Cons.prems(1) by simp
  show ?case
  proof (cases "rel = a")
    case True
    with Cons.prems(4,5) have "list_ex (\<lambda>c. c (fk a) = r (refd a)) (st (child a))"
      unfolding list_ex_iff by blast
    with Cons.prems(3) True restrict show ?thesis by simp
  next
    case False
    with Cons.prems have rest: "\<forall>rel \<in> set rels. on_delete rel = Restrict" "rel \<in> set rels"
      by simp_all
    show ?thesis
    proof (cases "r (refd a) = VNull \<or> list_ex (\<lambda>c. c (fk a) = r (refd a)) (st (child a))")
      case True
      then show ?thesis
      proof
        assume "r (refd a) = VNull"
        with Cons.IH[of st, OF rest Cons.prems(3,4,5)] show ?thesis by simp
      next
        assume "list_ex (\<lambda>c. c (fk a) = r (refd a)) (st (child a))"
        with restrict Cons.IH[of st, OF rest Cons.prems(3,4,5)] show ?thesis by simp
      qed
    next
      case False
      with restrict Cons.IH[of st, OF rest Cons.prems(3,4,5)] show ?thesis by simp
    qed
  qed
qed

lemma user_parent_relations:
  "filter (\<lambda>rel. parent rel = ''User'') (relations schema) =
     [ Rel ''Assessment'' ''userId'' ''User'' ''id'' Restrict Cascade,
       Rel ''Resume'' ''userId'' ''User'' ''id'' Restrict Cascade,
       Rel ''CoverLetter'' ''userId'' ''User'' ''id'' Restrict Cascade,
       Rel ''TokenTransaction'' ''userId'' ''User'' ''id'' Restrict Cascade,
       Rel ''Payment'' ''userId'' ''User'' ''id'' Restrict Cascade ]"
  by (simp add: relations_schema)

lemma find_unique:
  assumes "unique_col w rows" "u \<in> set rows" "u w = v" "v \<noteq> VNull"
  shows "find (\<lambda>x. x w = v) rows = Some u"
proof (cases "find (\<lambda>x. x w = v) rows")
  case None
  with assms(2,3) show ?thesis by (auto simp: find_None_iff)
next
  case (Some r)
  from find_SomeD[OF Some] have "r \<in> set rows" "r w = v" by simp_all
  from unique_col_same[OF assms(1) this(1) assms(2)] this(2) assms(3,4) Some
  show ?thesis by simp
qed

lemma delete_owner_restricted:
  assumes r: "reachable st" and ch: "ch \<in> set user_children"
    and w: "w \<in> set (unique_fields User_model)" and v: "v \<noteq> VNull"
    and u: "u \<in> set (st ''User'')" and uw: "u w = v"
    and c: "c \<in> set (st ch)" and cu: "c ''userId'' = u ''id''"
  shows "delete schema ''User'' (w, v) st = Inl RestrictError"
proof -
  from reachable_invariants[OF r] have uh: "uniques_hold schema st"
    and rq: "required_hold schema st" by simp_all
  from uniques_holdD[OF uh models_schema_mem(1) w] have "unique_col w (st ''User'')"
    by (simp add: mname_schema)
  from find_unique[OF this u uw v] have fr: "find (\<lambda>x. x w = v) (st ''User'') = Some u" .
  from required_holdD[OF rq models_schema_mem(1), of "''id''" u] u
  have idnn: "u ''id'' \<noteq> VNull" by (simp add: schema_facts)
  from user_childrenD[OF ch] have rel: "Rel ch ''userId'' ''User'' ''id'' Restrict Cascade
      \<in> set (filter (\<lambda>rel. parent rel = ''User'') (relations schema))" by auto
  have ne: "ch \<noteq> ''User''" using ch by (auto simp: user_children_def)
  let ?st1 = "st(''User'' := filter (\<lambda>x. x w \<noteq> v) (st ''User''))"
  have "propagate schema (filter (\<lambda>rel. parent rel = ''User'') (relations schema)) u None ?st1
        = Inl RestrictError"
  proof (rule propagate_restrict_fails[OF _ rel])
    show "\<forall>rel \<in> set (filter (\<lambda>rel. parent rel = ''User'') (relations schema)).
            on_delete rel = Restrict"
      unfolding user_parent_relations by simp
    show "u (refd (Rel ch ''userId'' ''User'' ''id'' Restrict Cascade)) \<noteq> VNull"
      using idnn by simp
    show "c \<in> set (?st1 (child (Rel ch ''userId'' ''User'' ''id'' Restrict Cascade)))"
      using c ne by simp
    show "c (fk (Rel ch ''userId'' ''User'' ''id'' Restrict Cascade)) =
          u (refd (Rel ch ''userId'' ''User'' ''id'' Restrict Cascade))"
      using cu by simp
  qed
  with fr w v show ?thesis
    by (simp add: delete_def find_model_schema)
qed

lemma child_has_owner:
  assumes r: "reachable st" and ch: "ch \<in> set user_children" and c: "c \<in> set (st ch)"
  shows "c ''userId'' \<in> set (map (\<lambda>u. u ''id'') (st ''User''))"
proof -
  from reachable_invariants[OF r] have rh: "refs_hold schema st"
    and rq: "required_hold schema st" by simp_all
  from user_childrenD[OF ch] obtain md where md: "md \<in> set (models schema)"
    and mn: "mname md = ch" and q: "''userId'' \<in> set (required_fields md)"
    and rel: "Rel ch ''userId'' ''User'' ''id'' Restrict Cascade \<in> set (relations schema)"
    by blast
  from required_holdD[OF rq md q] c mn have "c ''userId'' \<noteq> VNull" by simp
  moreover from refs_holdD[OF rh rel] c
  have "fk_ok st (Rel ch ''userId'' ''User'' ''id'' Restrict Cascade) c" by simp
  ultimately show ?thesis by (simp add: fk_ok_set)
qed

text \<open>
  Referential actions. No \<^verbatim>\<open>@relation\<close> of the schema writes a referential action, so
  none declares
  a cascade: for a required foreign key the store restricts. In every reachable state
  the \<open>userId\<close> of every Assessment, Resume, CoverLetter, TokenTransaction and Payment
  row is the \<open>id\<close> of a User row, and a delete of a User that one of these rows
  references fails with the store unchanged.
\<close>

theorem no_cascade_no_orphans:
  assumes "reachable st"
  shows "declared_actions schema = [] \<and>
         (\<forall>ch c. ch \<in> set user_children \<and> c \<in> set (st ch) \<longrightarrow>
            c ''userId'' \<in> set (map (\<lambda>u. u ''id'') (st ''User''))) \<and>
         (\<forall>now ch c u w v. ch \<in> set user_children \<and> c \<in> set (st ch) \<and>
              u \<in> set (st ''User'') \<and> c ''userId'' = u ''id'' \<and>
              w \<in> set (unique_fields User_model) \<and> u w = v \<and> v \<noteq> VNull \<longrightarrow>
            exec schema now (Delete ''User'' (w, v)) st = (Some RestrictError, st))"
proof -
  have a: "declared_actions schema = []"
    by (simp add: declared_actions_def schema_defs)
  have b: "c ''userId'' \<in> set (map (\<lambda>u. u ''id'') (st ''User''))"
    if "ch \<in> set user_children" "c \<in> set (st ch)" for ch c
    using child_has_owner[OF assms that] .
  have c: "exec schema now (Delete ''User'' (w, v)) st = (Some RestrictError, st)"
    if "ch \<in> set user_children" "c \<in> set (st ch)" "u \<in> set (st ''User'')"
      "c ''userId'' = u ''id''" "w \<in> set (unique_fields User_model)" "u w = v" "v \<noteq> VNull"
    for now ch c u w v
    using delete_owner_restricted[OF assms that(1,5,7,3,6,2,4)] by (simp add: exec_def)
  from a b c show ?thesis by blast
qed

theorem no_cascade_no_orphans_witness:
  "declared_actions schema = [] \<and>
   list_all (\<lambda>c. c ''userId'' \<in> set (map (\<lambda>u. u ''id'') (demo_store ''User'')))
     (demo_store ''Resume'') \<and>
   exec schema 9 (Delete ''User'' (''id'', VStr ''c'')) demo_store = (Some RestrictError, demo_store)"
proof -
  note main = no_cascade_no_orphans[OF reachable_demo_store]
  have ch: "''Resume'' \<in> set user_children" by (simp add: user_children_def)
  have w: "''id'' \<in> set (unique_fields User_model)" by (simp add: schema_facts)
  have v: "VStr ''c'' \<noteq> VNull" by simp
  obtain c where c: "c \<in> set (demo_store ''Resume'')" and cu: "c ''userId'' = VStr ''c''"
    using demo_store_tables(2) by (cases "demo_store ''Resume''") auto
  obtain u where u: "u \<in> set (demo_store ''User'')" and ui: "u ''id'' = VStr ''c''"
    using demo_store_tables(1) by (cases "demo_store ''User''") auto
  from main have a: "declared_actions schema = []" by blast
  from main ch have b: "list_all (\<lambda>c. c ''userId'' \<in> set (map (\<lambda>u. u ''id'') (demo_store ''User'')))
     (demo_store ''Resume'')" unfolding list_all_iff by blast
  from main ch c u cu ui w v
  have d: "exec schema 9 (Delete ''User'' (''id'', VStr ''c'')) demo_store
           = (Some RestrictError, demo_store)"
    by (metis (no_types, lifting))
  from a b d show ?thesis by blast
qed





section \<open>Declared defaults and timestamp columns\<close>










subsection \<open>The claims on defaults and timestamps\<close>











section \<open>The declaration of the PDF-export module\<close>

text \<open>
  \<^verbatim>\<open>app/types/html2pdf.d.ts\<close> declares the shape of \<^verbatim>\<open>html2pdf.js\<close> and implements
  nothing. It is embedded as data: the types it writes, the members of its two
  interfaces, the function it declares and the export assignment.
\<close>

datatype ts_type =
    TsNumber
  | TsString
  | TsVoid
  | TsTuple "ts_type list"
  | TsUnion "ts_type list"
  | TsObject "(string \<times> bool \<times> ts_type) list"
  | TsRef string
  | TsPromise ts_type

text \<open>
  A property \<^verbatim>\<open>name?: T\<close> carries \<open>True\<close> for the question mark; the fields of an
  object type carry the same flag.
\<close>

datatype ts_member =
    Property string bool ts_type
  | Method string "(string \<times> ts_type) list" ts_type

datatype ts_interface = Interface (iname: string) (members: "ts_member list")

datatype ts_module =
  Module (modname: string) (interfaces: "ts_interface list")
         (declared_functions: "(string \<times> (string \<times> ts_type) list \<times> ts_type) list")
         (export_assignment: string)

definition Options_interface :: ts_interface where
  "Options_interface = Interface ''Options''
     [ Property ''margin'' True (TsUnion [TsNumber, TsTuple [TsNumber, TsNumber]]),
       Property ''filename'' True TsString,
       Property ''image'' True
         (TsObject [(''type'', False, TsString), (''quality'', False, TsNumber)]),
       Property ''html2canvas'' True (TsObject [(''scale'', False, TsNumber)]),
       Property ''jsPDF'' True
         (TsObject [(''unit'', False, TsString), (''format'', False, TsString),
                    (''orientation'', False, TsString)]) ]"

definition Html2Pdf_interface :: ts_interface where
  "Html2Pdf_interface = Interface ''Html2Pdf''
     [ Method ''set'' [(''options'', TsRef ''Options'')] (TsRef ''Html2Pdf''),
       Method ''from'' [(''element'', TsRef ''HTMLElement'')] (TsRef ''Html2Pdf''),
       Method ''save'' [] (TsPromise TsVoid) ]"

definition html2pdf_module :: ts_module where
  "html2pdf_module = Module ''html2pdf.js'' [Options_interface, Html2Pdf_interface]
     [(''html2pdf'', [], TsRef ''Html2Pdf'')] ''html2pdf''"

text \<open>
  The configuration paths of an interface: each property with the fields of its object
  type, if it has one. The chained entry points: the methods that return the interface
  that declares them.
\<close>

fun member_paths :: "ts_member \<Rightarrow> (string \<times> string list) list" where
  "member_paths (Property n opt (TsObject fs)) = [(n, map fst fs)]"
| "member_paths (Property n opt t) = [(n, [])]"
| "member_paths (Method n ps r) = []"

definition config_paths :: "ts_interface \<Rightarrow> (string \<times> string list) list" where
  "config_paths i = concat (map member_paths (members i))"

fun method_sig :: "ts_member \<Rightarrow> (string \<times> ts_type list \<times> ts_type) list" where
  "method_sig (Method n ps r) = [(n, map snd ps, r)]"
| "method_sig (Property n opt t) = []"

definition methods :: "ts_interface \<Rightarrow> (string \<times> ts_type list \<times> ts_type) list" where
  "methods i = concat (map method_sig (members i))"

definition chained :: "ts_interface \<Rightarrow> (string \<times> ts_type list) list" where
  "chained i =
     map (\<lambda>(n, ps, r). (n, ps)) (filter (\<lambda>(n, ps, r). r = TsRef (iname i)) (methods i))"

text \<open>
  C8. The configuration interface \<open>Options\<close> has the properties \<open>margin\<close>,
  \<open>filename\<close>, \<open>image\<close> (with \<open>quality\<close>), \<open>html2canvas\<close> (with \<open>scale\<close>) and
  \<open>jsPDF\<close> (with \<open>unit\<close>, \<open>format\<close>, \<open>orientation\<close>). The builder interface
  \<open>Html2Pdf\<close> has exactly two methods that return the builder: \<open>set\<close>, which takes the
  configuration, and \<open>from\<close>, which takes the element to render; its third method
  \<open>save\<close> takes nothing and returns a promise of no value. The module exports the
  function that returns the builder.
\<close>

theorem html2pdf_declared_shape:
  "config_paths Options_interface =
     [ (''margin'', []), (''filename'', []), (''image'', [''type'', ''quality'']),
       (''html2canvas'', [''scale'']), (''jsPDF'', [''unit'', ''format'', ''orientation'']) ] \<and>
   chained Html2Pdf_interface =
     [ (''set'', [TsRef ''Options'']), (''from'', [TsRef ''HTMLElement'']) ] \<and>
   methods Html2Pdf_interface =
     [ (''set'', [TsRef ''Options''], TsRef ''Html2Pdf''),
       (''from'', [TsRef ''HTMLElement''], TsRef ''Html2Pdf''),
       (''save'', [], TsPromise TsVoid) ] \<and>
   interfaces html2pdf_module = [Options_interface, Html2Pdf_interface] \<and>
   declared_functions html2pdf_module = [(export_assignment html2pdf_module, [], TsRef ''Html2Pdf'')]"
  by (simp add: config_paths_def chained_def methods_def Options_interface_def
        Html2Pdf_interface_def html2pdf_module_def)


end
